theory Spec2Isabelle
  imports Complex_Main "HOL-Library.Word" "HOL-Library.Log_Nat"
begin

unbundle bit_operations_syntax

section \<open>Data model of the ADF4351 driver\<close>

text \<open>
  The driver is the C++ class \<open>ADF4351\<close> (\<open>ADF4351.h\<close>, \<open>ADF4351.cpp\<close>).  Its members are
  fixed-width unsigned integers; they are modelled as machine words, so that every
  truncation and wrap-around of the source is present in the model.  The array
  \<open>_registers[6]\<close> is a list, which the constructor makes six long and no operation
  lengthens or shortens.  The target is a
  32-bit microcontroller: \<open>int\<close> and \<open>unsigned long\<close> are 32 bits wide, \<open>unsigned long long\<close>
  is 64 bits wide.
\<close>

type_synonym u8 = "8 word"
type_synonym u16 = "16 word"
type_synonym u32 = "32 word"
type_synonym u64 = "64 word"

text \<open>
  Every call of the Arduino pin interface is recorded, in program order, in a log that is
  part of the state: \<open>pinMode(pin, OUTPUT)\<close>, \<open>digitalWrite(pin, level)\<close> and
  \<open>delayMicroseconds(n)\<close>.  The log is all the driver does to the outside world.
\<close>

datatype gpio_event =
    PinModeOutput u8
  | DigitalWrite u8 bool
  | DelayMicroseconds nat

text \<open>
  Two operations of \<open>updateRegisters\<close> have no defined result for some operands: the
  unsigned division by the PFD frequency when that is zero, and the conversion of a
  \<open>double\<close> to \<open>uint32_t\<close> when the truncated value is not a \<open>uint32_t\<close>.
\<close>

datatype fault = Division_by_zero | Double_to_uint32_out_of_range

record adf4351 =
  m_le_pin :: u8
  m_clk_pin :: u8
  m_data_pin :: u8
  m_ce_pin :: u8
  m_frequency :: u32
  m_refFreq :: u32
  m_powerLevel :: u8
  m_outputEnabled :: bool
  m_lowNoiseMode :: bool
  m_registers :: "u32 list"
  gpio_log :: "gpio_event list"

text \<open>
  The constructor.  It does not assign \<open>_refFreq\<close>; the value that member holds until
  \<open>begin\<close> runs is the extra argument \<open>indeterminate\<close>.
\<close>

definition ADF4351 :: "u8 \<Rightarrow> u8 \<Rightarrow> u8 \<Rightarrow> u8 \<Rightarrow> u32 \<Rightarrow> adf4351" where
  "ADF4351 le_pin clk_pin data_pin ce_pin indeterminate =
     \<lparr> m_le_pin = le_pin, m_clk_pin = clk_pin, m_data_pin = data_pin, m_ce_pin = ce_pin,
       m_frequency = 0, m_refFreq = indeterminate, m_powerLevel = 3,
       m_outputEnabled = True, m_lowNoiseMode = True,
       m_registers = replicate 6 0, gpio_log = [] \<rparr>"

section \<open>The pin interface and the serial transfer\<close>

definition pinModeOutput :: "u8 \<Rightarrow> adf4351 \<Rightarrow> adf4351" where
  "pinModeOutput pin s = s\<lparr>gpio_log := gpio_log s @ [PinModeOutput pin]\<rparr>"

definition digitalWrite :: "u8 \<Rightarrow> bool \<Rightarrow> adf4351 \<Rightarrow> adf4351" where
  "digitalWrite pin level s = s\<lparr>gpio_log := gpio_log s @ [DigitalWrite pin level]\<rparr>"

definition delayMicroseconds :: "nat \<Rightarrow> adf4351 \<Rightarrow> adf4351" where
  "delayMicroseconds n s = s\<lparr>gpio_log := gpio_log s @ [DelayMicroseconds n]\<rparr>"

text \<open>One pass of the loop body of \<open>writeRegister\<close>, for bit \<open>i\<close> of \<open>v\<close>.\<close>

definition shiftOutBit :: "u32 \<Rightarrow> nat \<Rightarrow> adf4351 \<Rightarrow> adf4351" where
  "shiftOutBit v i s =
     delayMicroseconds 1 (digitalWrite (m_clk_pin s) False
       (delayMicroseconds 1 (digitalWrite (m_clk_pin s) True
         (digitalWrite (m_data_pin s) ((drop_bit i v AND 1) \<noteq> 0) s))))"

definition writeRegister :: "u32 \<Rightarrow> adf4351 \<Rightarrow> adf4351" where
  "writeRegister v s =
     delayMicroseconds 1 (digitalWrite (m_le_pin s) True
       (fold (shiftOutBit v) (rev [0..<32]) (digitalWrite (m_le_pin s) False s)))"

text \<open>The loop \<open>for (int i = 5; i >= 0; i--) writeRegister(_registers[i])\<close>.\<close>

definition writeAllRegisters :: "adf4351 \<Rightarrow> adf4351" where
  "writeAllRegisters s = fold (\<lambda>i t. writeRegister (m_registers t ! i) t) (rev [0..<6]) s"

section \<open>Double-precision arithmetic\<close>

text \<open>
  \<open>updateRegisters\<close> computes the fractional part in \<open>double\<close>.  A finite double is a
  rational number; an arithmetic operation returns the exact result rounded to the nearest
  number with a 53-bit significand, ties to even (IEEE 754 binary64, with gradual
  underflow below \<open>2 powi -1022\<close>).  Results of magnitude \<open>2 powi 1024\<close> or more, which
  would be infinite, do not arise from the operands the driver supplies (quotients and
  products of 32-bit integers) and are not modelled.
\<close>

definition binade :: "rat \<Rightarrow> int" where
  "binade x = (let (a, b) = quotient_of \<bar>x\<bar>; k = bitlen a - bitlen b
               in if 2 powi k \<le> \<bar>x\<bar> then k else k - 1)"

definition round_half_even :: "rat \<Rightarrow> int" where
  "round_half_even y =
     (let f = \<lfloor>y\<rfloor>; r = y - of_int f
      in if r < 1 / 2 then f else if 1 / 2 < r then f + 1
         else if even f then f else f + 1)"

definition round_double :: "rat \<Rightarrow> rat" where
  "round_double x =
     (if x = 0 then 0
      else let u = 2 powi (max (binade x) (- 1022) - 52)
           in of_int (round_half_even (x / u)) * u)"

definition double_of_u32 :: "u32 \<Rightarrow> rat" where
  "double_of_u32 w = of_nat (unat w)"

definition double_of_u16 :: "u16 \<Rightarrow> rat" where
  "double_of_u16 w = of_nat (unat w)"

definition double_div :: "rat \<Rightarrow> rat \<Rightarrow> rat" where
  "double_div a b = round_double (a / b)"

definition double_sub :: "rat \<Rightarrow> rat \<Rightarrow> rat" where
  "double_sub a b = round_double (a - b)"

definition double_mul :: "rat \<Rightarrow> rat \<Rightarrow> rat" where
  "double_mul a b = round_double (a * b)"

text \<open>
  The cast \<open>(uint32_t)d\<close> truncates towards zero; it is undefined when the truncated
  value is not a \<open>uint32_t\<close>.
\<close>

definition truncate_rat :: "rat \<Rightarrow> int" where
  "truncate_rat d = (if 0 \<le> d then \<lfloor>d\<rfloor> else \<lceil>d\<rceil>)"

definition double_to_u32 :: "rat \<Rightarrow> fault + u32" where
  "double_to_u32 d =
     (let t = truncate_rat d
      in if 0 \<le> t \<and> t < 2 ^ 32 then Inr (word_of_int t)
         else Inl Double_to_uint32_out_of_range)"

section \<open>Register computation\<close>

definition calculateRFDivider :: "u32 \<Rightarrow> u8" where
  "calculateRFDivider frequency =
     (if frequency < 68750000 then 6
      else if frequency < 137500000 then 5
      else if frequency < 275000000 then 4
      else if frequency < 550000000 then 3
      else if frequency < 1100000000 then 2
      else if frequency < 2200000000 then 1
      else 0)"

text \<open>
  The local variables of \<open>updateRegisters\<close>, each as a function of what it is computed
  from.  \<open>rfDivider\<close> is a \<open>uint8_t\<close> holding \<open>1 << divider\<close>; \<open>vcoFreq\<close> is the 32-bit
  product \<open>_frequency * rfDivider\<close>; \<open>intValue\<close> is a \<open>uint16_t\<close> holding the 32-bit
  quotient; \<open>fracValue\<close> is the cast to \<open>uint32_t\<close> of the double expression
  \<open>(((double)vcoFreq / (double)pfdFreq) - intValue) * mod\<close>, here \<open>fracProduct_of\<close>.
\<close>

definition rfDivider_of :: "u8 \<Rightarrow> u8" where
  "rfDivider_of divider = ucast (push_bit (unat divider) (1 :: u32))"

definition vcoFreq_of :: "u32 \<Rightarrow> u32" where
  "vcoFreq_of frequency =
     frequency * ucast (rfDivider_of (calculateRFDivider frequency))"

definition intValue_of :: "u32 \<Rightarrow> u32 \<Rightarrow> u16" where
  "intValue_of vcoFreq pfdFreq = ucast (vcoFreq div pfdFreq)"

definition fracProduct_of :: "u32 \<Rightarrow> u32 \<Rightarrow> rat" where
  "fracProduct_of vcoFreq pfdFreq =
     double_mul
       (double_sub (double_div (double_of_u32 vcoFreq) (double_of_u32 pfdFreq))
                   (double_of_u16 (intValue_of vcoFreq pfdFreq)))
       (double_of_u16 1000)"

definition fracValue_of :: "u32 \<Rightarrow> u32 \<Rightarrow> fault + u32" where
  "fracValue_of vcoFreq pfdFreq = double_to_u32 (fracProduct_of vcoFreq pfdFreq)"

definition updateRegisters :: "adf4351 \<Rightarrow> fault + adf4351" where
  "updateRegisters s =
     (let divider = calculateRFDivider (m_frequency s);
          vcoFreq = vcoFreq_of (m_frequency s);
          refDivider = (1 :: u32);
          pfdFreq = m_refFreq s div refDivider;
          modulus = (1000 :: u16);
          bandSelectClockDiv = (200 :: u8)
      in if pfdFreq = 0 then Inl Division_by_zero
         else case fracValue_of vcoFreq pfdFreq of
             Inl e \<Rightarrow> Inl e
           | Inr fracValue \<Rightarrow>
               Inr (s\<lparr>m_registers := (m_registers s)
                 [0 := push_bit 15 (ucast (intValue_of vcoFreq pfdFreq)) OR push_bit 3 fracValue OR 0,
                  1 := push_bit 15 0 OR push_bit 27 1 OR push_bit 3 (ucast modulus) OR 1,
                  2 := (if m_lowNoiseMode s then push_bit 21 1 else push_bit 20 1)
                         OR push_bit 9 6 OR push_bit 14 refDivider OR 2,
                  3 := push_bit 3 (ucast (m_powerLevel s)) OR push_bit 10 3 OR 3,
                  4 := push_bit 20 (ucast divider)
                         OR (if m_outputEnabled s then 0 else push_bit 5 1)
                         OR push_bit 12 (ucast bandSelectClockDiv) OR 4,
                  5 := push_bit 22 1 OR 5]\<rparr>))"

section \<open>The public operations\<close>

text \<open>
  In \<open>setFrequency\<close> the literal \<open>4400000000UL\<close> does not fit 32 bits, so it has the
  64-bit type and the comparison is made at 64 bits.
\<close>

definition setFrequency :: "u32 \<Rightarrow> adf4351 \<Rightarrow> fault + (bool \<times> adf4351)" where
  "setFrequency frequency s =
     (if frequency < 35000000 \<or> (ucast frequency :: u64) > 4400000000
      then Inr (False, s)
      else case updateRegisters (s\<lparr>m_frequency := frequency\<rparr>) of
          Inl e \<Rightarrow> Inl e
        | Inr t \<Rightarrow> Inr (True, writeAllRegisters t))"

definition setPowerLevel :: "u8 \<Rightarrow> adf4351 \<Rightarrow> adf4351" where
  "setPowerLevel level0 s =
     (let level = (if level0 > 3 then 3 else level0);
          s1 = s\<lparr>m_powerLevel := level\<rparr>;
          s2 = s1\<lparr>m_registers := (m_registers s1)[3 := m_registers s1 ! 3 AND NOT (push_bit 3 3)]\<rparr>;
          s3 = s2\<lparr>m_registers := (m_registers s2)[3 := m_registers s2 ! 3 OR push_bit 3 (ucast (m_powerLevel s2))]\<rparr>
      in writeRegister (m_registers s3 ! 3) s3)"

definition enableOutput :: "bool \<Rightarrow> adf4351 \<Rightarrow> adf4351" where
  "enableOutput enable s =
     (let s1 = s\<lparr>m_outputEnabled := enable\<rparr>;
          s2 = (if enable
                then s1\<lparr>m_registers := (m_registers s1)[4 := m_registers s1 ! 4 AND NOT (push_bit 5 1)]\<rparr>
                else s1\<lparr>m_registers := (m_registers s1)[4 := m_registers s1 ! 4 OR push_bit 5 1]\<rparr>)
      in writeRegister (m_registers s2 ! 4) s2)"

definition setPhase :: "u16 \<Rightarrow> adf4351 \<Rightarrow> adf4351" where
  "setPhase phase0 s =
     (let phase = (if phase0 > 4095 then 4095 else phase0);
          s1 = s\<lparr>m_registers := (m_registers s)[1 := m_registers s ! 1 AND NOT (push_bit 15 4095)]\<rparr>;
          s2 = s1\<lparr>m_registers := (m_registers s1)[1 := m_registers s1 ! 1 OR push_bit 15 (ucast phase)]\<rparr>
      in writeRegister (m_registers s2 ! 1) s2)"

definition setLowNoiseMode :: "bool \<Rightarrow> adf4351 \<Rightarrow> adf4351" where
  "setLowNoiseMode lowNoise s =
     (let s1 = s\<lparr>m_lowNoiseMode := lowNoise\<rparr>;
          s2 = (if lowNoise
                then let t = s1\<lparr>m_registers := (m_registers s1)[2 := m_registers s1 ! 2 OR push_bit 21 1]\<rparr>
                     in t\<lparr>m_registers := (m_registers t)[2 := m_registers t ! 2 AND NOT (push_bit 20 1)]\<rparr>
                else let t = s1\<lparr>m_registers := (m_registers s1)[2 := m_registers s1 ! 2 AND NOT (push_bit 21 1)]\<rparr>
                     in t\<lparr>m_registers := (m_registers t)[2 := m_registers t ! 2 OR push_bit 20 1]\<rparr>)
      in writeRegister (m_registers s2 ! 2) s2)"

definition getFrequency :: "adf4351 \<Rightarrow> u32" where
  "getFrequency s = m_frequency s"

definition isLocked :: "adf4351 \<Rightarrow> bool" where
  "isLocked s = True"

text \<open>
  \<open>begin\<close> stores the reference frequency, sets the pins up, loads and transmits the
  fixed register set and calls \<open>setFrequency(100000000)\<close>, whose result it ignores.
\<close>

definition begin_pins :: "adf4351 \<Rightarrow> adf4351" where
  "begin_pins s =
     digitalWrite (m_ce_pin s) True (digitalWrite (m_data_pin s) False
       (digitalWrite (m_clk_pin s) False (digitalWrite (m_le_pin s) True
         (pinModeOutput (m_ce_pin s) (pinModeOutput (m_data_pin s)
           (pinModeOutput (m_clk_pin s) (pinModeOutput (m_le_pin s) s)))))))"

definition begin_adf :: "u32 \<Rightarrow> adf4351 \<Rightarrow> fault + adf4351" where
  "begin_adf refFreq s =
     (let s1 = begin_pins (s\<lparr>m_refFreq := refFreq\<rparr>);
          s2 = s1\<lparr>m_registers := (m_registers s1)
                 [0 := 0x00580000, 1 := 0x08008011, 2 := 0x00004E42,
                  3 := 0x000004B3, 4 := 0x00800024, 5 := 0x00580005]\<rparr>
      in case setFrequency 100000000 (writeAllRegisters s2) of
          Inl e \<Rightarrow> Inl e
        | Inr (ok, t) \<Rightarrow> Inr t)"

section \<open>Call sequences\<close>

text \<open>
  A client of the class calls its setters in some order.  A call that runs into a fault
  ends the run with that fault.
\<close>

datatype call =
    SetFrequency u32
  | SetPowerLevel u8
  | EnableOutput bool
  | SetPhase u16
  | SetLowNoiseMode bool

fun apply_call :: "call \<Rightarrow> adf4351 \<Rightarrow> fault + adf4351" where
  "apply_call (SetFrequency f) s =
     (case setFrequency f s of Inl e \<Rightarrow> Inl e | Inr (ok, t) \<Rightarrow> Inr t)"
| "apply_call (SetPowerLevel l) s = Inr (setPowerLevel l s)"
| "apply_call (EnableOutput e) s = Inr (enableOutput e s)"
| "apply_call (SetPhase p) s = Inr (setPhase p s)"
| "apply_call (SetLowNoiseMode n) s = Inr (setLowNoiseMode n s)"

fun run_calls :: "call list \<Rightarrow> adf4351 \<Rightarrow> fault + adf4351" where
  "run_calls [] s = Inr s"
| "run_calls (c # cs) s =
     (case apply_call c s of Inl e \<Rightarrow> Inl e | Inr t \<Rightarrow> run_calls cs t)"

text \<open>The life of a controller object: \<open>begin\<close>, then a sequence of setter calls.\<close>

definition begin_then :: "u32 \<Rightarrow> call list \<Rightarrow> adf4351 \<Rightarrow> fault + adf4351" where
  "begin_then refFreq cs s =
     (case begin_adf refFreq s of Inl e \<Rightarrow> Inl e | Inr t \<Rightarrow> run_calls cs t)"

section \<open>Register fields\<close>

text \<open>
  The bit fields of the register words that the driver's comments name: the address in
  bits 0 to 2 of every word; INT in bits 15 to 30 and FRAC in bits 3 to 14 of register 0;
  the phase in bits 15 to 26 of register 1; the power level in bits 3 and 4 of register 3.
\<close>

definition address_field :: "u32 \<Rightarrow> u32" where
  "address_field r = r AND 7"

definition address_bits_ok :: "adf4351 \<Rightarrow> bool" where
  "address_bits_ok s \<longleftrightarrow> map address_field (m_registers s) = [0, 1, 2, 3, 4, 5]"

text \<open>
  The settings that the class keeps in a member, as the register array encodes them: the
  power level in the power field of register 3, the output enable inverted in bit 5 of
  register 4, the noise mode in bits 21 (low noise) and 20 (low spur) of register 2.
\<close>

definition settings_encoded :: "adf4351 \<Rightarrow> bool" where
  "settings_encoded s \<longleftrightarrow>
     length (m_registers s) = 6 \<and> m_powerLevel s \<le> 3
     \<and> drop_bit 3 (m_registers s ! 3) AND 3 = ucast (m_powerLevel s)
     \<and> bit (m_registers s ! 4) 5 = (\<not> m_outputEnabled s)
     \<and> bit (m_registers s ! 2) 21 = m_lowNoiseMode s
     \<and> bit (m_registers s ! 2) 20 = (\<not> m_lowNoiseMode s)"

definition int_field :: "u32 \<Rightarrow> u32" where
  "int_field r = drop_bit 15 r AND 0xFFFF"

definition frac_field :: "u32 \<Rightarrow> u32" where
  "frac_field r = drop_bit 3 r AND 0xFFF"

definition phase_field :: "u32 \<Rightarrow> u32" where
  "phase_field r = drop_bit 15 r AND 0xFFF"

definition power_field :: "u32 \<Rightarrow> u32" where
  "power_field r = drop_bit 3 r AND 3"

section \<open>The divider table as the specification words it\<close>

text \<open>
  The specification gives six breakpoints and the exponents 6 down to 0: a frequency
  below the first breakpoint has exponent 6, and each breakpoint reached lowers the
  exponent by one, a frequency equal to a breakpoint counting as having reached it.
\<close>

definition spec_breakpoints :: "nat list" where
  "spec_breakpoints =
     [68750000, 137500000, 275000000, 550000000, 1100000000, 2200000000]"

definition spec_divider_exponent :: "nat \<Rightarrow> nat" where
  "spec_divider_exponent f = 6 - length (filter (\<lambda>b. b \<le> f) spec_breakpoints)"

section \<open>Properties of the double-precision model\<close>

lemma binade_bounds:
  assumes "x \<noteq> 0"
  shows "2 powi (binade x) \<le> \<bar>x\<bar> \<and> \<bar>x\<bar> < 2 powi (binade x + 1)"
proof -
  obtain a b where ab: "quotient_of \<bar>x\<bar> = (a, b)" by (cases "quotient_of \<bar>x\<bar>")
  have bpos: "0 < b" using ab quotient_of_denom_pos by blast
  have xeq: "\<bar>x\<bar> = of_int a / of_int b" using ab quotient_of_div by blast
  have xpos: "0 < \<bar>x\<bar>" using assms by simp
  have apos: "0 < a"
    using xpos bpos xeq by (simp add: zero_less_divide_iff)
  define la where "la = bitlen a"
  define lb where "lb = bitlen b"
  have la1: "1 \<le> la" and lb1: "1 \<le> lb"
    using apos bpos by (auto simp: la_def lb_def bitlen_alt_def)
  have ba: "2 ^ nat (la - 1) \<le> a" "a < 2 ^ nat la"
    using bitlen_bounds[OF apos] by (auto simp: la_def)
  have bb: "2 ^ nat (lb - 1) \<le> b" "b < 2 ^ nat lb"
    using bitlen_bounds[OF bpos] by (auto simp: lb_def)
  have ra: "(2::rat) powi (la - 1) \<le> of_int a" "(of_int a :: rat) < 2 powi la"
  proof -
    have "(of_int (2 ^ nat (la - 1)) :: rat) \<le> of_int a" using ba(1) by (simp only: of_int_le_iff)
    then show "(2::rat) powi (la - 1) \<le> of_int a" using la1 by (simp add: power_int_def)
    have "(of_int a :: rat) < of_int (2 ^ nat la)" using ba(2) by (simp only: of_int_less_iff)
    then show "(of_int a :: rat) < 2 powi la" using la1 by (simp add: power_int_def)
  qed
  have rb: "(2::rat) powi (lb - 1) \<le> of_int b" "(of_int b :: rat) < 2 powi lb"
  proof -
    have "(of_int (2 ^ nat (lb - 1)) :: rat) \<le> of_int b" using bb(1) by (simp only: of_int_le_iff)
    then show "(2::rat) powi (lb - 1) \<le> of_int b" using lb1 by (simp add: power_int_def)
    have "(of_int b :: rat) < of_int (2 ^ nat lb)" using bb(2) by (simp only: of_int_less_iff)
    then show "(of_int b :: rat) < 2 powi lb" using lb1 by (simp add: power_int_def)
  qed
  have rbpos: "(0::rat) < of_int b" using bpos by simp
  have lower: "(2::rat) powi (la - lb - 1) \<le> \<bar>x\<bar>"
  proof -
    have "(2::rat) powi (la - lb - 1) * of_int b \<le> 2 powi (la - lb - 1) * 2 powi lb"
      using rb(2) by (intro mult_left_mono) auto
    also have "\<dots> = 2 powi (la - 1)"
      by (simp add: power_int_add[symmetric])
    also have "\<dots> \<le> of_int a" by (rule ra(1))
    finally show ?thesis using rbpos by (simp add: xeq pos_le_divide_eq)
  qed
  have upper: "\<bar>x\<bar> < (2::rat) powi (la - lb + 1)"
  proof -
    have "(of_int a :: rat) < 2 powi la" by (rule ra(2))
    also have "\<dots> = 2 powi (la - lb + 1) * 2 powi (lb - 1)"
      by (simp add: power_int_add[symmetric])
    also have "\<dots> \<le> 2 powi (la - lb + 1) * of_int b"
      using rb(1) by (intro mult_left_mono) auto
    finally show ?thesis using rbpos by (simp add: xeq pos_divide_less_eq)
  qed
  have bd: "binade x = (if 2 powi (la - lb) \<le> \<bar>x\<bar> then la - lb else la - lb - 1)"
    by (simp add: binade_def ab la_def lb_def Let_def)
  show ?thesis
  proof (cases "(2::rat) powi (la - lb) \<le> \<bar>x\<bar>")
    case True
    then show ?thesis using upper by (simp add: bd)
  next
    case False
    then show ?thesis using lower by (simp add: bd)
  qed
qed


lemma round_half_even_of_int: "round_half_even (of_int k) = k"
  by (simp add: round_half_even_def)

lemma round_half_even_bounds:
  "of_int (round_half_even y) \<le> y + 1 / 2 \<and> y - 1 / 2 \<le> of_int (round_half_even y)"
proof -
  have "of_int \<lfloor>y\<rfloor> \<le> y" "y < of_int \<lfloor>y\<rfloor> + 1" by linarith+
  then show ?thesis unfolding round_half_even_def Let_def by (auto; linarith)
qed

lemma round_half_even_mono:
  assumes "x \<le> y"
  shows "round_half_even x \<le> round_half_even y"
proof (cases "\<lfloor>x\<rfloor> = \<lfloor>y\<rfloor>")
  case True
  then show ?thesis using assms by (auto simp: round_half_even_def Let_def)
next
  case False
  then have "\<lfloor>x\<rfloor> + 1 \<le> \<lfloor>y\<rfloor>" using floor_mono[OF assms] by linarith
  moreover have "round_half_even x \<le> \<lfloor>x\<rfloor> + 1" by (simp add: round_half_even_def Let_def)
  moreover have "\<lfloor>y\<rfloor> \<le> round_half_even y" by (simp add: round_half_even_def Let_def)
  ultimately show ?thesis by linarith
qed


lemma pow2_less_imp_less:
  assumes "(2::rat) powi a < 2 powi c"
  shows "a < c"
proof (rule ccontr)
  assume "\<not> a < c"
  then have "c \<le> a" by simp
  then have "(2::rat) powi c \<le> 2 powi a" by (intro power_int_increasing) auto
  with assms show False by simp
qed

lemma pow2_mult: "(2::rat) powi a * 2 powi b = 2 powi (a + b)"
  by (simp add: power_int_add)

lemma pow2_scale: "(2::rat) ^ n * 2 powi k = 2 powi (k + int n)"
proof -
  have "(2::rat) ^ n = 2 powi (int n)" by simp
  then show ?thesis by (simp only: pow2_mult add.commute)
qed

lemma pow2_scale53: "(2::rat) ^ 53 * 2 powi (e - 52) = 2 powi (e + 1)"
proof -
  have "(2::rat) ^ 53 * 2 powi (e - 52) = 2 powi (e - 52 + int 53)" by (rule pow2_scale)
  also have "e - 52 + int 53 = e + 1" by simp
  finally show ?thesis .
qed

lemma pow2_scale52: "(2::rat) ^ 52 * 2 powi (e - 52) = 2 powi e"
proof -
  have "(2::rat) ^ 52 * 2 powi (e - 52) = 2 powi (e - 52 + int 52)" by (rule pow2_scale)
  also have "e - 52 + int 52 = e" by simp
  finally show ?thesis .
qed

lemma round_double_pos:
  assumes "0 < x"
  shows "round_double x =
           of_int (round_half_even (x / 2 powi (max (binade x) (- 1022) - 52)))
             * 2 powi (max (binade x) (- 1022) - 52)"
  using assms by (simp add: round_double_def Let_def)

lemma round_double_nonneg:
  assumes "0 \<le> x"
  shows "0 \<le> round_double x"
proof (cases "x = 0")
  case True
  then show ?thesis by (simp add: round_double_def)
next
  case False
  with assms have xpos: "0 < x" by simp
  define u :: rat where "u = 2 powi (max (binade x) (- 1022) - 52)"
  have upos: "0 < u" by (simp add: u_def)
  have "0 \<le> x / u" using xpos upos by simp
  then have "round_half_even 0 \<le> round_half_even (x / u)" by (rule round_half_even_mono)
  then have "0 \<le> round_half_even (x / u)" using round_half_even_of_int[of 0] by simp
  then show ?thesis using upos by (simp add: round_double_pos[OF xpos] u_def[symmetric])
qed

lemma round_double_representable:
  assumes m: "0 \<le> m" "m < 2 ^ 53" and k: "- 1074 \<le> k"
  shows "round_double (of_int m * 2 powi k) = of_int m * 2 powi k"
proof (cases "m = 0")
  case True
  then show ?thesis by (simp add: round_double_def)
next
  case False
  define y :: rat where "y = of_int m * 2 powi k"
  have mpos: "0 < m" using False m by simp
  have ypos: "0 < y" using mpos by (simp add: y_def)
  define b where "b = binade y"
  define E where "E = max b (- 1022)"
  have "(2::rat) powi b \<le> \<bar>y\<bar>" using binade_bounds[of y] ypos by (simp add: b_def)
  also have "\<bar>y\<bar> = y" using ypos by simp
  also have "y < 2 ^ 53 * 2 powi k"
  proof -
    have "(of_int m :: rat) < of_int (2 ^ 53)" using m(2) by (simp only: of_int_less_iff)
    then have "(of_int m :: rat) < 2 ^ 53" by simp
    then show ?thesis unfolding y_def by (intro mult_strict_right_mono) auto
  qed
  also have "(2::rat) ^ 53 * 2 powi k = 2 powi (53 + k)"
    by (simp add: power_int_add)
  finally have "b < 53 + k" by (rule pow2_less_imp_less)
  then have Ek: "E \<le> 52 + k" using k by (simp add: E_def)
  define j where "j = k - (E - 52)"
  have j0: "0 \<le> j" using Ek by (simp add: j_def)
  have ksplit: "(2::rat) powi k = 2 powi j * 2 powi (E - 52)"
    by (simp add: j_def power_int_add[symmetric])
  have "y / 2 powi (E - 52) = of_int m * 2 powi j"
    by (simp add: y_def ksplit)
  also have "\<dots> = of_int (m * 2 ^ nat j)"
    using j0 by (simp add: power_int_def)
  finally have "round_half_even (y / 2 powi (E - 52)) = m * 2 ^ nat j"
    by (simp only: round_half_even_of_int)
  then have "round_double y = of_int (m * 2 ^ nat j) * 2 powi (E - 52)"
    by (simp add: round_double_pos[OF ypos] E_def b_def)
  also have "\<dots> = of_int m * 2 powi j * 2 powi (E - 52)"
    using j0 by (simp add: power_int_def)
  also have "\<dots> = y" by (simp add: y_def ksplit)
  finally show ?thesis by (simp add: y_def)
qed

lemma round_double_of_nat:
  assumes "n < 2 ^ 53"
  shows "round_double (of_nat n) = of_nat n"
proof -
  have "int n < 2 ^ 53" using assms by (metis of_nat_less_iff of_nat_numeral of_nat_power)
  then show ?thesis using round_double_representable[of "int n" 0] by simp
qed

lemma round_double_mono:
  assumes "0 \<le> x" "x \<le> y"
  shows "round_double x \<le> round_double y"
proof (cases "x = 0")
  case True
  then show ?thesis using round_double_nonneg[of y] assms by (simp add: round_double_def)
next
  case False
  with assms have xpos: "0 < x" and ypos: "0 < y" by simp_all
  define Ex where "Ex = max (binade x) (- 1022)"
  define Ey where "Ey = max (binade y) (- 1022)"
  define ux :: rat where "ux = 2 powi (Ex - 52)"
  define uy :: rat where "uy = 2 powi (Ey - 52)"
  have uxpos: "0 < ux" and uypos: "0 < uy" by (simp_all add: ux_def uy_def)
  have rx: "round_double x = of_int (round_half_even (x / ux)) * ux"
    by (simp add: round_double_pos[OF xpos] ux_def Ex_def)
  have ry: "round_double y = of_int (round_half_even (y / uy)) * uy"
    by (simp add: round_double_pos[OF ypos] uy_def Ey_def)
  have bx: "(2::rat) powi (binade x) \<le> x" "x < 2 powi (binade x + 1)"
    using binade_bounds[of x] xpos by simp_all
  have bdy: "(2::rat) powi (binade y) \<le> y" "y < 2 powi (binade y + 1)"
    using binade_bounds[of y] ypos by simp_all
  have "(2::rat) powi (binade x) < 2 powi (binade y + 1)"
    using bx(1) assms(2) bdy(2) by linarith
  then have "binade x < binade y + 1" by (rule pow2_less_imp_less)
  then have ExEy: "Ex \<le> Ey" by (simp add: Ex_def Ey_def)
  show ?thesis
  proof (cases "Ex = Ey")
    case True
    then have "ux = uy" by (simp add: ux_def uy_def)
    moreover have "x / uy \<le> y / uy" using assms(2) uypos by (simp add: divide_right_mono)
    then have "round_half_even (x / uy) \<le> round_half_even (y / uy)"
      by (rule round_half_even_mono)
    ultimately show ?thesis using uypos by (simp add: rx ry)
  next
    case False
    with ExEy have lt: "Ex < Ey" by simp
    then have Eyb: "Ey = binade y" unfolding Ex_def Ey_def by linarith
    have "x < 2 powi (binade x + 1)" by (rule bx(2))
    also have "\<dots> \<le> 2 powi (Ex + 1)"
      by (intro power_int_increasing) (auto simp: Ex_def)
    finally have "x / ux \<le> 2 powi (Ex + 1) / ux"
      using uxpos by (simp add: divide_right_mono)
    also have "2 powi (Ex + 1) / ux = of_int (2 ^ 53)"
      using pow2_scale53[of Ex] uxpos by (simp add: ux_def field_simps)
    finally have "round_half_even (x / ux) \<le> round_half_even (of_int (2 ^ 53))"
      by (rule round_half_even_mono)
    then have "round_half_even (x / ux) \<le> 2 ^ 53"
      by (simp only: round_half_even_of_int)
    then have "(of_int (round_half_even (x / ux)) :: rat) \<le> of_int (2 ^ 53)"
      by (simp only: of_int_le_iff)
    then have "round_double x \<le> 2 ^ 53 * ux"
      using uxpos by (simp add: rx)
    also have "2 ^ 53 * ux = 2 powi (Ex + 1)"
      unfolding ux_def by (rule pow2_scale53)
    also have "\<dots> \<le> 2 powi Ey"
      using lt by (intro power_int_increasing) auto
    finally have left: "round_double x \<le> 2 powi Ey" .
    have "2 powi Ey / uy \<le> y / uy"
      using bdy(1) uypos by (simp add: Eyb divide_right_mono)
    moreover have "2 powi Ey / uy = of_int (2 ^ 52)"
      using pow2_scale52[of Ey] uypos by (simp add: uy_def field_simps)
    ultimately have "round_half_even (of_int (2 ^ 52)) \<le> round_half_even (y / uy)"
      by (simp only: round_half_even_mono)
    then have "2 ^ 52 \<le> round_half_even (y / uy)"
      by (simp only: round_half_even_of_int)
    then have "(of_int (2 ^ 52) :: rat) \<le> of_int (round_half_even (y / uy))"
      by (simp only: of_int_le_iff)
    then have "2 ^ 52 * uy \<le> round_double y"
      using uypos by (simp add: ry)
    moreover have "2 ^ 52 * uy = 2 powi Ey"
      unfolding uy_def by (rule pow2_scale52)
    ultimately show ?thesis using left by linarith
  qed
qed


lemma round_double_error:
  assumes x: "0 < x" "x < 2 powi (e + 1)" and e: "- 1022 \<le> e"
  shows "\<bar>round_double x - x\<bar> \<le> 2 powi (e - 53)"
proof -
  define E where "E = max (binade x) (- 1022)"
  define u :: rat where "u = 2 powi (E - 52)"
  have upos: "0 < u" by (simp add: u_def)
  have "(2::rat) powi (binade x) \<le> x" using binade_bounds[of x] x(1) by simp
  then have "(2::rat) powi (binade x) < 2 powi (e + 1)" using x(2) by linarith
  then have "binade x < e + 1" by (rule pow2_less_imp_less)
  then have Ee: "E \<le> e" using e by (simp add: E_def)
  have rd: "round_double x = of_int (round_half_even (x / u)) * u"
    by (simp add: round_double_pos[OF x(1)] u_def E_def)
  have "round_double x - x = (of_int (round_half_even (x / u)) - x / u) * u"
    using upos by (simp add: rd field_simps)
  moreover have "\<bar>of_int (round_half_even (x / u)) - x / u\<bar> \<le> 1 / 2"
    using round_half_even_bounds[of "x / u"] by linarith
  ultimately have "\<bar>round_double x - x\<bar> \<le> 1 / 2 * u"
    using upos by (simp add: abs_mult mult_right_mono)
  also have "1 / 2 * u = 2 powi (E - 53)"
  proof -
    have "(2::rat) powi (E - 53) * 2 powi 1 = 2 powi (E - 53 + 1)" by (rule pow2_mult)
    then show ?thesis by (simp add: u_def)
  qed
  also have "\<dots> \<le> 2 powi (e - 53)" using Ee by (intro power_int_increasing) auto
  finally show ?thesis .
qed

lemma intValue_of_unat:
  assumes "unat v div unat p < 65536"
  shows "unat (intValue_of v p) = unat v div unat p"
proof -
  have "unat (intValue_of v p) = unat (v div p) mod 2 ^ 16"
    by (simp add: intValue_of_def unsigned_ucast_eq take_bit_eq_mod)
  also have "unat (v div p) = unat v div unat p" by (rule unat_div)
  finally show ?thesis using assms by simp
qed

lemma quotient_window:
  fixes V P :: nat
  assumes P: "0 < P" "P < 2 ^ 32"
  shows "(of_nat (V div P) :: rat) \<le> of_nat V / of_nat P"
    and "(of_nat V / of_nat P :: rat) \<le> of_nat (V div P) + 1 - 1 / 2 ^ 32"
proof -
  define n where "n = V div P"
  define r where "r = V mod P"
  have V: "V = n * P + r" by (simp add: n_def r_def)
  have r: "r + 1 \<le> P" using P(1) by (simp add: r_def Suc_leI)
  have Ppos: "(0::rat) < of_nat P" using P(1) by simp
  have Vr: "(of_nat V :: rat) = of_nat n * of_nat P + of_nat r"
    by (simp add: V)
  have x: "(of_nat V / of_nat P :: rat) = of_nat n + of_nat r / of_nat P"
    using Ppos by (simp add: Vr field_simps)
  show "(of_nat n :: rat) \<le> of_nat V / of_nat P" using Ppos by (simp add: x)
  have "(of_nat (r + 1) :: rat) \<le> of_nat P" using r by (simp only: of_nat_le_iff)
  then have "(of_nat r :: rat) / of_nat P \<le> 1 - 1 / of_nat P"
    using Ppos by (simp add: field_simps)
  moreover have "(1::rat) / 2 ^ 32 \<le> 1 / of_nat P"
  proof -
    have "(of_nat P :: rat) \<le> of_nat (2 ^ 32)" using P(2) by (simp only: of_nat_le_iff less_imp_le)
    then have "(of_nat P :: rat) \<le> 2 ^ 32" by simp
    then show ?thesis using Ppos by (simp add: frac_le)
  qed
  ultimately show "(of_nat V / of_nat P :: rat) \<le> of_nat n + 1 - 1 / 2 ^ 32"
    unfolding x by linarith
qed


lemma round_double_fix:
  assumes "y = of_int m * 2 powi k" "0 \<le> m" "m < 2 ^ 53" "- 1074 \<le> k"
  shows "round_double y = y"
  using round_double_representable[OF assms(2,3,4)] by (simp only: assms(1))

lemma fracProduct_chain:
  fixes v p :: u32
  assumes p0: "p \<noteq> 0" and small: "unat v div unat p < 65536"
  obtains q d where
    "q = round_double (of_nat (unat v) / of_nat (unat p))"
    "of_nat (unat v div unat p) \<le> q" "q \<le> of_nat (unat v div unat p) + 1 - 1 / 2 ^ 32"
    "d = round_double (q - of_nat (unat v div unat p))"
    "0 \<le> d" "d \<le> 1 - 1 / 2 ^ 32"
    "fracProduct_of v p = round_double (d * 1000)"
proof -
  define V where "V = unat v"
  define P where "P = unat p"
  define n where "n = V div P"
  define x :: rat where "x = of_nat V / of_nat P"
  have Ppos: "0 < P" using p0 by (simp add: P_def unat_gt_0)
  have Plt: "P < 2 ^ 32" using unsigned_less[of p, where 'a=nat] by (simp add: P_def)
  have n_small: "n < 65536" using small by (simp add: n_def V_def P_def)
  have iv: "double_of_u16 (intValue_of v p) = of_nat n"
    using intValue_of_unat[OF small] by (simp add: double_of_u16_def n_def V_def P_def)
  have lo: "(of_nat n :: rat) \<le> x" and hi: "x \<le> of_nat n + 1 - 1 / 2 ^ 32"
    using quotient_window[OF Ppos Plt, of V] by (simp_all add: x_def n_def)
  have x0: "0 \<le> x" using lo by (meson of_nat_0_le_iff order_trans)
  have n_fix: "round_double (of_nat n) = of_nat n"
    using n_small by (intro round_double_of_nat) simp
  define q where "q = round_double x"
  have q_lo: "of_nat n \<le> q"
    using round_double_mono[of "of_nat n" x] lo n_fix by (simp add: q_def)
  have y_rep: "round_double (of_nat n + 1 - 1 / 2 ^ 32) = of_nat n + 1 - 1 / 2 ^ 32"
  proof -
    define m where "m = (int n + 1) * 2 ^ 32 - 1"
    have m0: "0 \<le> m" by (simp add: m_def)
    have "int n + 1 \<le> 65536" using n_small by simp
    then have "(int n + 1) * 2 ^ 32 \<le> 65536 * 2 ^ 32" by (intro mult_right_mono) auto
    then have m53: "m < 2 ^ 53" by (simp add: m_def)
    have "of_nat n + 1 - 1 / 2 ^ 32 = (of_int m :: rat) * 2 powi (- 32)"
      by (simp add: m_def power_int_minus field_simps)
    then show ?thesis using m0 m53 by (rule round_double_fix) simp
  qed
  have q_hi: "q \<le> of_nat n + 1 - 1 / 2 ^ 32"
    using round_double_mono[OF x0 hi] y_rep by (simp add: q_def)
  define d where "d = round_double (q - of_nat n)"
  have d_lo: "0 \<le> d" using q_lo by (simp add: d_def round_double_nonneg)
  have one_rep: "round_double (1 - 1 / 2 ^ 32) = 1 - 1 / 2 ^ 32"
  proof -
    have "1 - 1 / 2 ^ 32 = (of_int (2 ^ 32 - 1) :: rat) * 2 powi (- 32)"
      by (simp add: power_int_minus field_simps)
    then show ?thesis by (rule round_double_fix) simp_all
  qed
  have d_hi: "d \<le> 1 - 1 / 2 ^ 32"
  proof -
    have "0 \<le> q - of_nat n" "q - of_nat n \<le> 1 - 1 / 2 ^ 32" using q_lo q_hi by simp_all
    then show ?thesis using round_double_mono[of "q - of_nat n" "1 - 1 / 2 ^ 32"] one_rep
      by (simp add: d_def)
  qed
  have "fracProduct_of v p =
          double_mul (double_sub (double_div (double_of_u32 v) (double_of_u32 p)) (of_nat n))
            (double_of_u16 1000)"
    by (simp only: fracProduct_of_def iv)
  also have "\<dots> = round_double (d * 1000)"
    by (simp add: double_mul_def double_sub_def double_div_def
        double_of_u32_def double_of_u16_def d_def q_def x_def V_def P_def)
  finally have fp: "fracProduct_of v p = round_double (d * 1000)" .
  show ?thesis
  proof (rule that[of q d])
    show "q = round_double (of_nat (unat v) / of_nat (unat p))" by (simp add: q_def x_def V_def P_def)
    show "of_nat (unat v div unat p) \<le> q" using q_lo by (simp add: n_def V_def P_def)
    show "q \<le> of_nat (unat v div unat p) + 1 - 1 / 2 ^ 32" using q_hi by (simp add: n_def V_def P_def)
    show "d = round_double (q - of_nat (unat v div unat p))" by (simp add: d_def n_def V_def P_def)
    show "0 \<le> d" by (rule d_lo)
    show "d \<le> 1 - 1 / 2 ^ 32" by (rule d_hi)
    show "fracProduct_of v p = round_double (d * 1000)" by (rule fp)
  qed
qed

lemma fracProduct_bounds:
  fixes v p :: u32
  assumes p0: "p \<noteq> 0" and small: "unat v div unat p < 65536"
  shows "0 \<le> fracProduct_of v p \<and> fracProduct_of v p \<le> 1000 - 1000 / 2 ^ 32"
proof -
  obtain q d where d: "0 \<le> d" "d \<le> 1 - 1 / 2 ^ 32"
    and fp: "fracProduct_of v p = round_double (d * 1000)"
    using fracProduct_chain[OF p0 small] by metis
  have lo: "0 \<le> round_double (d * 1000)" using d(1) by (simp add: round_double_nonneg)
  have k_rep: "round_double (1000 - 1000 / 2 ^ 32) = 1000 - 1000 / 2 ^ 32"
  proof -
    have "1000 - 1000 / 2 ^ 32 = (of_int (1000 * 2 ^ 32 - 1000) :: rat) * 2 powi (- 32)"
      by (simp add: power_int_minus field_simps)
    then show ?thesis by (rule round_double_fix) simp_all
  qed
  have "0 \<le> d * 1000" "d * 1000 \<le> 1000 - 1000 / 2 ^ 32" using d by simp_all
  then have "round_double (d * 1000) \<le> 1000 - 1000 / 2 ^ 32"
    using round_double_mono[of "d * 1000" "1000 - 1000 / 2 ^ 32"] k_rep by simp
  then show ?thesis using lo by (simp add: fp)
qed

lemma round_double_error0:
  assumes x: "0 \<le> x" "x < 2 powi (e + 1)" and e: "- 1022 \<le> e"
  shows "\<bar>round_double x - x\<bar> \<le> 2 powi (e - 53)"
proof (cases "x = 0")
  case True
  then show ?thesis by (simp add: round_double_def)
next
  case False
  then have "0 < x" using x(1) by simp
  then show ?thesis using x(2) e by (rule round_double_error)
qed

lemma fracProduct_error:
  fixes v p :: u32
  assumes p0: "p \<noteq> 0" and small: "unat v div unat p < 65536"
  shows "\<bar>fracProduct_of v p
           - (of_nat (unat v) / of_nat (unat p) - of_nat (unat v div unat p)) * 1000\<bar>
         \<le> 1 / 2 ^ 27"
proof -
  define x :: rat where "x = of_nat (unat v) / of_nat (unat p)"
  define n :: rat where "n = of_nat (unat v div unat p)"
  obtain q d where q: "q = round_double x" "n \<le> q" "q \<le> n + 1 - 1 / 2 ^ 32"
    and d: "d = round_double (q - n)" "0 \<le> d" "d \<le> 1 - 1 / 2 ^ 32"
    and fp: "fracProduct_of v p = round_double (d * 1000)"
    using fracProduct_chain[OF p0 small] unfolding x_def n_def by metis
  have Ppos: "0 < unat p" using p0 by (simp add: unat_gt_0)
  have Plt: "unat p < 2 ^ 32" using unsigned_less[of p, where 'a=nat] by simp
  have x0: "0 \<le> x" unfolding x_def by (intro divide_nonneg_nonneg of_nat_0_le_iff)
  have n_small: "n \<le> 65535"
  proof -
    have "unat v div unat p \<le> 65535" using small by simp
    then have "(of_nat (unat v div unat p) :: rat) \<le> of_nat 65535" by (simp only: of_nat_le_iff)
    then show ?thesis by (simp add: n_def)
  qed
  have "x \<le> n + 1 - 1 / 2 ^ 32"
    using quotient_window(2)[OF Ppos Plt, of "unat v"] by (simp add: x_def n_def)
  then have xlt: "x < 2 powi (15 + 1)" using n_small by simp
  have e1: "\<bar>q - x\<bar> \<le> 2 powi (15 - 53)"
    unfolding q(1) using x0 xlt by (rule round_double_error0) simp
  have y0: "0 \<le> q - n" using q(2) by simp
  have ylt: "q - n < 2 powi (- 1 + 1)" using q(3) by simp
  have e2: "\<bar>d - (q - n)\<bar> \<le> 2 powi (- 1 - 53)"
    unfolding d(1) using y0 ylt by (rule round_double_error0) simp
  have z0: "0 \<le> d * 1000" using d(2) by simp
  have zlt: "d * 1000 < 2 powi (9 + 1)" using d(3) by simp
  have e3: "\<bar>round_double (d * 1000) - d * 1000\<bar> \<le> 2 powi (9 - 53)"
    using z0 zlt by (rule round_double_error0) simp
  define a where "a = round_double (d * 1000) - d * 1000"
  define b where "b = d - (q - n)"
  define c where "c = q - x"
  define e38 :: rat where "e38 = 2 powi (15 - 53)"
  define e54 :: rat where "e54 = 2 powi (- 1 - 53)"
  define e44 :: rat where "e44 = 2 powi (9 - 53)"
  have b1: "\<bar>c\<bar> \<le> e38" using e1 unfolding c_def e38_def .
  have b2: "\<bar>b\<bar> \<le> e54" using e2 unfolding b_def e54_def .
  have b3: "\<bar>a\<bar> \<le> e44" using e3 unfolding a_def e44_def .
  have total: "e44 + 1000 * e54 + 1000 * e38 \<le> 1 / 2 ^ 27"
    by (simp add: e38_def e54_def e44_def power_int_minus)
  have split: "round_double (d * 1000) - (x - n) * 1000 = a + 1000 * b + 1000 * c"
    by (simp add: a_def b_def c_def algebra_simps)
  have "\<bar>a + 1000 * b + 1000 * c\<bar> \<le> e44 + 1000 * e54 + 1000 * e38"
    using b1 b2 b3 by linarith
  then have "\<bar>round_double (d * 1000) - (x - n) * 1000\<bar> \<le> 1 / 2 ^ 27"
    unfolding split using total by linarith
  then show ?thesis by (simp add: fp x_def n_def)
qed

section \<open>Divider selection\<close>

lemma calculateRFDivider_cases:
  "unat (calculateRFDivider f) =
     (if unat f < 68750000 then 6
      else if unat f < 137500000 then 5
      else if unat f < 275000000 then 4
      else if unat f < 550000000 then 3
      else if unat f < 1100000000 then 2
      else if unat f < 2200000000 then 1
      else 0)"
  by (simp add: calculateRFDivider_def word_less_nat_alt)

section \<open>The serial transfer changes only the pin log\<close>

lemma and7: "(x::u32) AND 7 = take_bit 3 x"
  by (simp add: take_bit_eq_mask mask_eq_exp_minus_1)

lemma shiftOutBit_log: "\<exists>l. shiftOutBit v i s = s\<lparr>gpio_log := gpio_log s @ l\<rparr>"
  by (rule exI[of _ "[DigitalWrite (m_data_pin s) (drop_bit i v AND 1 \<noteq> 0),
        DigitalWrite (m_clk_pin s) True, DelayMicroseconds 1,
        DigitalWrite (m_clk_pin s) False, DelayMicroseconds 1]"])
     (simp add: shiftOutBit_def delayMicroseconds_def digitalWrite_def)

lemma fold_shiftOutBit_log:
  "\<exists>l. fold (shiftOutBit v) is s = s\<lparr>gpio_log := gpio_log s @ l\<rparr>"
proof (induction "is" arbitrary: s)
  case Nil
  show ?case by (rule exI[of _ "[]"]) simp
next
  case (Cons i "is")
  obtain l where l: "shiftOutBit v i s = s\<lparr>gpio_log := gpio_log s @ l\<rparr>"
    using shiftOutBit_log by blast
  obtain l' where l': "fold (shiftOutBit v) is (s\<lparr>gpio_log := gpio_log s @ l\<rparr>)
      = (s\<lparr>gpio_log := gpio_log s @ l\<rparr>)\<lparr>gpio_log := gpio_log (s\<lparr>gpio_log := gpio_log s @ l\<rparr>) @ l'\<rparr>"
    using Cons.IH by blast
  have "fold (shiftOutBit v) (i # is) s = s\<lparr>gpio_log := gpio_log s @ (l @ l')\<rparr>"
    by (simp add: l l')
  then show ?case by blast
qed

lemma writeRegister_log: "\<exists>l. writeRegister v s = s\<lparr>gpio_log := gpio_log s @ l\<rparr>"
proof -
  obtain l where l: "fold (shiftOutBit v) (rev [0..<32]) (s\<lparr>gpio_log := gpio_log s @ [DigitalWrite (m_le_pin s) False]\<rparr>)
      = s\<lparr>gpio_log := gpio_log s @ [DigitalWrite (m_le_pin s) False] @ l\<rparr>"
    using fold_shiftOutBit_log[of v "rev [0..<32]" "s\<lparr>gpio_log := gpio_log s @ [DigitalWrite (m_le_pin s) False]\<rparr>"]
    by auto
  have "writeRegister v s = s\<lparr>gpio_log := gpio_log s @ ([DigitalWrite (m_le_pin s) False] @ l @ [DigitalWrite (m_le_pin s) True, DelayMicroseconds 1])\<rparr>"
    unfolding writeRegister_def digitalWrite_def delayMicroseconds_def
    by (simp only: l) simp
  then show ?thesis by blast
qed

lemma fold_writeRegister_log:
  "\<exists>l. fold (\<lambda>i t. writeRegister (m_registers t ! i) t) is s = s\<lparr>gpio_log := gpio_log s @ l\<rparr>"
proof (induction "is" arbitrary: s)
  case Nil
  show ?case by (rule exI[of _ "[]"]) simp
next
  case (Cons i "is")
  obtain l where l: "writeRegister (m_registers s ! i) s = s\<lparr>gpio_log := gpio_log s @ l\<rparr>"
    using writeRegister_log by blast
  obtain l' where l': "fold (\<lambda>i t. writeRegister (m_registers t ! i) t) is (s\<lparr>gpio_log := gpio_log s @ l\<rparr>)
      = (s\<lparr>gpio_log := gpio_log s @ l\<rparr>)\<lparr>gpio_log := gpio_log (s\<lparr>gpio_log := gpio_log s @ l\<rparr>) @ l'\<rparr>"
    using Cons.IH by blast
  have "fold (\<lambda>i t. writeRegister (m_registers t ! i) t) (i # is) s = s\<lparr>gpio_log := gpio_log s @ (l @ l')\<rparr>"
    by (simp add: l l')
  then show ?case by blast
qed

lemma writeAllRegisters_log: "\<exists>l. writeAllRegisters s = s\<lparr>gpio_log := gpio_log s @ l\<rparr>"
  unfolding writeAllRegisters_def by (rule fold_writeRegister_log)


section \<open>Register computation: defined results\<close>

lemma quotient_small:
  fixes v p :: u32
  assumes "65536 \<le> unat p"
  shows "unat v div unat p < 65536"
proof -
  have "unat v < 2 ^ 32" using unsigned_less[of v, where 'a=nat] by simp
  then have "unat v div 65536 < 65536" by simp
  moreover have "unat v div unat p \<le> unat v div 65536"
    using assms by (intro div_le_mono2) simp_all
  ultimately show ?thesis by linarith
qed

lemma fracValue_of_Inr:
  fixes v p :: u32
  assumes p0: "p \<noteq> 0" and small: "unat v div unat p < 65536"
  shows "fracValue_of v p = Inr (word_of_int \<lfloor>fracProduct_of v p\<rfloor>)"
    and "0 \<le> \<lfloor>fracProduct_of v p\<rfloor>" and "\<lfloor>fracProduct_of v p\<rfloor> < 1000"
proof -
  have b: "0 \<le> fracProduct_of v p" "fracProduct_of v p \<le> 1000 - 1000 / 2 ^ 32"
    using fracProduct_bounds[OF p0 small] by simp_all
  show lo: "0 \<le> \<lfloor>fracProduct_of v p\<rfloor>" using b(1) by simp
  have "fracProduct_of v p < 1000" using b(2) by simp
  then show hi: "\<lfloor>fracProduct_of v p\<rfloor> < 1000" by (simp add: floor_less_iff)
  then have "\<lfloor>fracProduct_of v p\<rfloor> < 2 ^ 32" by simp
  then show "fracValue_of v p = Inr (word_of_int \<lfloor>fracProduct_of v p\<rfloor>)"
    using lo b(1) by (simp add: fracValue_of_def double_to_u32_def truncate_rat_def Let_def)
qed

lemma updateRegisters_Inr:
  assumes ref: "65536 \<le> unat (m_refFreq s)" and len: "length (m_registers s) = 6"
  shows "updateRegisters s = Inr (s\<lparr>m_registers :=
     [push_bit 15 (ucast (intValue_of (vcoFreq_of (m_frequency s)) (m_refFreq s)))
        OR push_bit 3 (word_of_int \<lfloor>fracProduct_of (vcoFreq_of (m_frequency s)) (m_refFreq s)\<rfloor>),
      0x08001F41,
      (if m_lowNoiseMode s then 0x00204C02 else 0x00104C02),
      push_bit 3 (ucast (m_powerLevel s)) OR 0xC03,
      push_bit 20 (ucast (calculateRFDivider (m_frequency s)))
        OR (if m_outputEnabled s then 0 else 0x20) OR 0xC8004,
      0x00400005]\<rparr>)"
proof -
  have p0: "m_refFreq s \<noteq> 0" using ref by auto
  have small: "unat (vcoFreq_of (m_frequency s)) div unat (m_refFreq s) < 65536"
    using ref by (rule quotient_small)
  obtain a b c d e f where regs: "m_registers s = [a, b, c, d, e, f]"
    using len by (auto simp: length_Suc_conv eval_nat_numeral)
  show ?thesis
    unfolding updateRegisters_def Let_def
    by (simp add: p0 fracValue_of_Inr(1)[OF p0 small] regs or.assoc)
qed


lemma upper_test_never:
  fixes f :: u32
  shows "\<not> (4400000000 :: u64) < ucast f"
proof -
  have lt: "unat f < 2 ^ 32" using unsigned_less[of f, where 'a=nat] by simp
  then have "unat f < 18446744073709551616" by simp
  then have "unat (ucast f :: u64) = unat f"
    by (simp add: unsigned_ucast_eq take_bit_eq_mod)
  with lt show ?thesis by (simp add: word_less_nat_alt)
qed

lemma setFrequency_rejected:
  assumes "f < 35000000"
  shows "setFrequency f s = Inr (False, s)"
  using assms by (simp add: setFrequency_def)

lemma setFrequency_accepted:
  assumes f: "\<not> f < 35000000"
    and ref: "65536 \<le> unat (m_refFreq s)" and len: "length (m_registers s) = 6"
  shows "\<exists>l. setFrequency f s = Inr (True, s\<lparr>m_frequency := f, m_registers :=
     [push_bit 15 (ucast (intValue_of (vcoFreq_of f) (m_refFreq s)))
        OR push_bit 3 (word_of_int \<lfloor>fracProduct_of (vcoFreq_of f) (m_refFreq s)\<rfloor>),
      0x08001F41,
      (if m_lowNoiseMode s then 0x00204C02 else 0x00104C02),
      push_bit 3 (ucast (m_powerLevel s)) OR 0xC03,
      push_bit 20 (ucast (calculateRFDivider f))
        OR (if m_outputEnabled s then 0 else 0x20) OR 0xC8004,
      0x00400005], gpio_log := gpio_log s @ l\<rparr>)"
proof -
  define t where "t = s\<lparr>m_frequency := f\<rparr>"
  have u: "updateRegisters t = Inr (t\<lparr>m_registers :=
     [push_bit 15 (ucast (intValue_of (vcoFreq_of (m_frequency t)) (m_refFreq t)))
        OR push_bit 3 (word_of_int \<lfloor>fracProduct_of (vcoFreq_of (m_frequency t)) (m_refFreq t)\<rfloor>),
      0x08001F41,
      (if m_lowNoiseMode t then 0x00204C02 else 0x00104C02),
      push_bit 3 (ucast (m_powerLevel t)) OR 0xC03,
      push_bit 20 (ucast (calculateRFDivider (m_frequency t)))
        OR (if m_outputEnabled t then 0 else 0x20) OR 0xC8004,
      0x00400005]\<rparr>)" (is "_ = Inr ?t'")
    by (rule updateRegisters_Inr) (simp_all add: t_def ref len)
  obtain l where l: "writeAllRegisters ?t' = ?t'\<lparr>gpio_log := gpio_log ?t' @ l\<rparr>"
    using writeAllRegisters_log by blast
  have "setFrequency f s = Inr (True, ?t'\<lparr>gpio_log := gpio_log ?t' @ l\<rparr>)"
    using f upper_test_never[of f] u l by (simp add: setFrequency_def t_def)
  then show ?thesis by (auto simp: t_def)
qed

section \<open>What each setter does to the members\<close>

lemma writeRegister_fields:
  "m_registers (writeRegister v s) = m_registers s"
  "m_refFreq (writeRegister v s) = m_refFreq s"
  "m_frequency (writeRegister v s) = m_frequency s"
  "m_powerLevel (writeRegister v s) = m_powerLevel s"
  "m_outputEnabled (writeRegister v s) = m_outputEnabled s"
  "m_lowNoiseMode (writeRegister v s) = m_lowNoiseMode s"
proof -
  obtain l where "writeRegister v s = s\<lparr>gpio_log := gpio_log s @ l\<rparr>"
    using writeRegister_log by blast
  then show "m_registers (writeRegister v s) = m_registers s"
    "m_refFreq (writeRegister v s) = m_refFreq s"
    "m_frequency (writeRegister v s) = m_frequency s"
    "m_powerLevel (writeRegister v s) = m_powerLevel s"
    "m_outputEnabled (writeRegister v s) = m_outputEnabled s"
    "m_lowNoiseMode (writeRegister v s) = m_lowNoiseMode s"
    by simp_all
qed

lemma writeAllRegisters_fields:
  "m_registers (writeAllRegisters s) = m_registers s"
  "m_refFreq (writeAllRegisters s) = m_refFreq s"
  "m_frequency (writeAllRegisters s) = m_frequency s"
  "m_powerLevel (writeAllRegisters s) = m_powerLevel s"
  "m_outputEnabled (writeAllRegisters s) = m_outputEnabled s"
  "m_lowNoiseMode (writeAllRegisters s) = m_lowNoiseMode s"
proof -
  obtain l where "writeAllRegisters s = s\<lparr>gpio_log := gpio_log s @ l\<rparr>"
    using writeAllRegisters_log by blast
  then show "m_registers (writeAllRegisters s) = m_registers s"
    "m_refFreq (writeAllRegisters s) = m_refFreq s"
    "m_frequency (writeAllRegisters s) = m_frequency s"
    "m_powerLevel (writeAllRegisters s) = m_powerLevel s"
    "m_outputEnabled (writeAllRegisters s) = m_outputEnabled s"
    "m_lowNoiseMode (writeAllRegisters s) = m_lowNoiseMode s"
    by simp_all
qed

lemma setPowerLevel_fields:
  "m_refFreq (setPowerLevel lv s) = m_refFreq s"
  "m_frequency (setPowerLevel lv s) = m_frequency s"
  "m_powerLevel (setPowerLevel lv s) = (if 3 < lv then 3 else lv)"
  "m_outputEnabled (setPowerLevel lv s) = m_outputEnabled s"
  "m_lowNoiseMode (setPowerLevel lv s) = m_lowNoiseMode s"
  by (simp_all add: setPowerLevel_def Let_def writeRegister_fields)

lemma setPowerLevel_registers:
  assumes "length (m_registers s) = 6"
  shows "m_registers (setPowerLevel lv s) =
     (m_registers s)[3 := (m_registers s ! 3 AND NOT 24) OR push_bit 3 (ucast (if 3 < lv then 3 else lv))]"
  using assms by (simp add: setPowerLevel_def Let_def writeRegister_fields)

lemma enableOutput_fields:
  "m_refFreq (enableOutput en s) = m_refFreq s"
  "m_frequency (enableOutput en s) = m_frequency s"
  "m_powerLevel (enableOutput en s) = m_powerLevel s"
  "m_outputEnabled (enableOutput en s) = en"
  "m_lowNoiseMode (enableOutput en s) = m_lowNoiseMode s"
  by (simp_all add: enableOutput_def Let_def writeRegister_fields)

lemma enableOutput_registers:
  "m_registers (enableOutput en s) =
     (m_registers s)[4 := (if en then m_registers s ! 4 AND NOT 32 else m_registers s ! 4 OR 32)]"
  by (simp add: enableOutput_def Let_def writeRegister_fields)

lemma setPhase_fields:
  "m_refFreq (setPhase ph s) = m_refFreq s"
  "m_frequency (setPhase ph s) = m_frequency s"
  "m_powerLevel (setPhase ph s) = m_powerLevel s"
  "m_outputEnabled (setPhase ph s) = m_outputEnabled s"
  "m_lowNoiseMode (setPhase ph s) = m_lowNoiseMode s"
  by (simp_all add: setPhase_def Let_def writeRegister_fields)

lemma setPhase_registers:
  assumes "length (m_registers s) = 6"
  shows "m_registers (setPhase ph s) =
     (m_registers s)[1 := (m_registers s ! 1 AND NOT 0x7FF8000) OR push_bit 15 (ucast (if 4095 < ph then 4095 else ph))]"
  using assms by (simp add: setPhase_def Let_def writeRegister_fields)

lemma setLowNoiseMode_fields:
  "m_refFreq (setLowNoiseMode lo s) = m_refFreq s"
  "m_frequency (setLowNoiseMode lo s) = m_frequency s"
  "m_powerLevel (setLowNoiseMode lo s) = m_powerLevel s"
  "m_outputEnabled (setLowNoiseMode lo s) = m_outputEnabled s"
  "m_lowNoiseMode (setLowNoiseMode lo s) = lo"
  by (simp_all add: setLowNoiseMode_def Let_def writeRegister_fields)

lemma setLowNoiseMode_registers:
  assumes "length (m_registers s) = 6"
  shows "m_registers (setLowNoiseMode lo s) =
     (m_registers s)[2 := (if lo then (m_registers s ! 2 OR 0x200000) AND NOT 0x100000
                           else (m_registers s ! 2 AND NOT 0x200000) OR 0x100000)]"
  using assms by (simp add: setLowNoiseMode_def Let_def writeRegister_fields)

section \<open>The address bits are an invariant\<close>

lemma address_field_take_bit: "address_field r = take_bit 3 r"
  by (simp add: address_field_def and7)


lemma address_updateRegisters:
  "address_field (push_bit 15 x OR push_bit 3 y) = 0"
  "address_field (push_bit 3 (ucast (pl :: u8)) OR 0xC03) = 3"
  "address_field (push_bit 20 (ucast (d :: u8)) OR (if oe then 0 else 0x20) OR 0xC8004) = 4"
  by (simp_all add: address_field_take_bit take_bit_push_bit bit.conj_disj_distrib2 flip: take_bit_eq_mask)


lemma address_setters:
  "address_field ((r AND NOT 24) OR push_bit 3 (ucast (pl :: u8))) = address_field r"
  "address_field (r AND NOT 32) = address_field r"
  "address_field (r OR 32) = address_field r"
  "address_field ((r AND NOT 0x7FF8000) OR push_bit 15 (ucast (ph :: u16))) = address_field r"
  "address_field ((r OR 0x200000) AND NOT 0x100000) = address_field r"
  "address_field ((r AND NOT 0x200000) OR 0x100000) = address_field r"
  by (simp_all add: address_field_take_bit and7 take_bit_push_bit flip: take_bit_eq_mask)

lemma address_bits_okD:
  assumes "address_bits_ok s"
  obtains a b c d e f where "m_registers s = [a, b, c, d, e, f]"
    "address_field a = 0" "address_field b = 1" "address_field c = 2"
    "address_field d = 3" "address_field e = 4" "address_field f = 5"
  using assms unfolding address_bits_ok_def by (auto simp: map_eq_Cons_conv)

lemma address_bits_ok_length: "address_bits_ok s \<Longrightarrow> length (m_registers s) = 6"
  by (erule address_bits_okD) simp

lemma setFrequency_keeps_addresses:
  assumes ref: "65536 \<le> unat (m_refFreq s)" and ok: "address_bits_ok s"
  shows "\<exists>b t. setFrequency f s = Inr (b, t) \<and> m_refFreq t = m_refFreq s \<and> address_bits_ok t"
proof (cases "f < 35000000")
  case True
  then show ?thesis using ok by (auto simp add: setFrequency_rejected)
next
  case False
  obtain l where "setFrequency f s = Inr (True, s\<lparr>m_frequency := f, m_registers :=
     [push_bit 15 (ucast (intValue_of (vcoFreq_of f) (m_refFreq s)))
        OR push_bit 3 (word_of_int \<lfloor>fracProduct_of (vcoFreq_of f) (m_refFreq s)\<rfloor>),
      0x08001F41,
      (if m_lowNoiseMode s then 0x00204C02 else 0x00104C02),
      push_bit 3 (ucast (m_powerLevel s)) OR 0xC03,
      push_bit 20 (ucast (calculateRFDivider f))
        OR (if m_outputEnabled s then 0 else 0x20) OR 0xC8004,
      0x00400005], gpio_log := gpio_log s @ l\<rparr>)"
    using setFrequency_accepted[OF False ref address_bits_ok_length[OF ok]] by blast
  then show ?thesis
    by (auto simp add: address_bits_ok_def address_field_take_bit and7 take_bit_push_bit)
qed

lemma apply_call_keeps_addresses:
  assumes ref: "65536 \<le> unat (m_refFreq s)" and ok: "address_bits_ok s"
  shows "\<exists>t. apply_call c s = Inr t \<and> m_refFreq t = m_refFreq s \<and> address_bits_ok t"
proof (cases c)
  case (SetFrequency f)
  then show ?thesis using setFrequency_keeps_addresses[OF ref ok, of f] by auto
next
  case (SetPowerLevel l)
  then show ?thesis using ok
    by (auto elim!: address_bits_okD
        simp: address_bits_ok_def setPowerLevel_fields setPowerLevel_registers
          address_field_take_bit and7 take_bit_push_bit)
next
  case (EnableOutput e)
  then show ?thesis using ok
    by (auto elim!: address_bits_okD
        simp: address_bits_ok_def enableOutput_fields enableOutput_registers
          address_field_take_bit and7 take_bit_push_bit)
next
  case (SetPhase p)
  then show ?thesis using ok
    by (auto elim!: address_bits_okD
        simp: address_bits_ok_def setPhase_fields setPhase_registers
          address_field_take_bit and7 take_bit_push_bit)
next
  case (SetLowNoiseMode n)
  then show ?thesis using ok
    by (auto elim!: address_bits_okD
        simp: address_bits_ok_def setLowNoiseMode_fields setLowNoiseMode_registers
          address_field_take_bit and7 take_bit_push_bit)
qed

lemma run_calls_keeps_addresses:
  assumes "65536 \<le> unat (m_refFreq s)" and "address_bits_ok s"
  shows "\<exists>t. run_calls cs s = Inr t \<and> m_refFreq t = m_refFreq s \<and> address_bits_ok t"
  using assms
proof (induction cs arbitrary: s)
  case Nil
  then show ?case by simp
next
  case (Cons c cs)
  obtain t where t: "apply_call c s = Inr t" "m_refFreq t = m_refFreq s" "address_bits_ok t"
    using apply_call_keeps_addresses[OF Cons.prems] by blast
  then show ?case using Cons.IH[of t] Cons.prems(1) by auto
qed

lemma begin_pins_fields:
  "m_registers (begin_pins s) = m_registers s"
  "m_refFreq (begin_pins s) = m_refFreq s"
  "m_frequency (begin_pins s) = m_frequency s"
  "m_powerLevel (begin_pins s) = m_powerLevel s"
  "m_outputEnabled (begin_pins s) = m_outputEnabled s"
  "m_lowNoiseMode (begin_pins s) = m_lowNoiseMode s"
  by (simp_all add: begin_pins_def digitalWrite_def pinModeOutput_def)

lemma begin_adf_ok:
  assumes ref: "65536 \<le> unat r" and len: "length (m_registers s) = 6"
  shows "\<exists>t. begin_adf r s = Inr t \<and> m_refFreq t = r \<and> address_bits_ok t"
proof -
  define s2 where "s2 = writeAllRegisters ((begin_pins (s\<lparr>m_refFreq := r\<rparr>))\<lparr>m_registers :=
      (m_registers (begin_pins (s\<lparr>m_refFreq := r\<rparr>)))
                 [0 := 0x00580000, 1 := 0x08008011, 2 := 0x00004E42,
                  3 := 0x000004B3, 4 := 0x00800024, 5 := 0x00580005]\<rparr>)"
  obtain a b c d e f where regs: "m_registers s = [a, b, c, d, e, f]"
    using len by (auto simp: length_Suc_conv eval_nat_numeral)
  have r2: "m_refFreq s2 = r"
    by (simp add: s2_def writeAllRegisters_fields begin_pins_fields)
  have "m_registers s2 = [0x00580000, 0x08008011, 0x00004E42, 0x000004B3, 0x00800024, 0x00580005]"
    by (simp add: s2_def writeAllRegisters_fields begin_pins_fields regs)
  then have ok2: "address_bits_ok s2"
    by (simp add: address_bits_ok_def address_field_def)
  obtain b t where t: "setFrequency 100000000 s2 = Inr (b, t)" "m_refFreq t = m_refFreq s2"
      "address_bits_ok t"
    using setFrequency_keeps_addresses[of s2 100000000] ref r2 ok2 by auto
  have "begin_adf r s = Inr t"
    using t(1) by (simp add: begin_adf_def Let_def s2_def)
  then show ?thesis using t r2 by simp
qed

lemma reg0_fields:
  fixes a :: u16 and b :: u32
  assumes "b < 4096"
  shows "int_field (push_bit 15 (ucast a) OR push_bit 3 b) = ucast a"
    and "frac_field (push_bit 15 (ucast a) OR push_bit 3 b) = b"
proof -
  have tb: "take_bit 12 b = b"
    using less_mask_eq[of b 12] assms by (simp add: take_bit_eq_mask)
  have m16: "(0xFFFF :: u32) = mask 16" and m12: "(0xFFF :: u32) = mask 12"
    by (simp_all add: mask_eq_exp_minus_1)
  have "int_field (push_bit 15 (ucast a) OR push_bit 3 (take_bit 12 b)) = ucast a"
    unfolding int_field_def m16
    by (auto simp add: bit_eq_iff bit_simps simp flip: take_bit_eq_mask dest: bit_imp_le_length)
  then show "int_field (push_bit 15 (ucast a) OR push_bit 3 b) = ucast a"
    by (simp only: tb)
  have "frac_field (push_bit 15 (ucast a) OR push_bit 3 (take_bit 12 b)) = take_bit 12 b"
    unfolding frac_field_def m12
    by (auto simp add: bit_eq_iff bit_simps simp flip: take_bit_eq_mask dest: bit_imp_le_length)
  then show "frac_field (push_bit 15 (ucast a) OR push_bit 3 b) = b"
    by (simp only: tb)
qed

lemma begin_then_keeps_addresses:
  assumes ref: "65536 \<le> unat r" and len: "length (m_registers s) = 6"
  shows "\<exists>t. begin_then r cs s = Inr t \<and> address_bits_ok t"
proof -
  obtain t0 where t0: "begin_adf r s = Inr t0" "m_refFreq t0 = r" "address_bits_ok t0"
    using begin_adf_ok[OF ref len] by blast
  obtain t where "run_calls cs t0 = Inr t" "address_bits_ok t"
    using run_calls_keeps_addresses[of t0 cs] t0 ref by auto
  then show ?thesis using t0(1) by (simp add: begin_then_def)
qed

section \<open>What setFrequency writes to register 0\<close>

lemma vcoFreq_of_unat:
  "unat (vcoFreq_of f) = (unat f * 2 ^ unat (calculateRFDivider f)) mod 2 ^ 32"
proof -
  have "unat (ucast (rfDivider_of (calculateRFDivider f)) :: u32) = 2 ^ unat (calculateRFDivider f)"
    by (simp add: rfDivider_of_def calculateRFDivider_def)
  then show ?thesis by (simp add: vcoFreq_of_def unat_word_ariths)
qed

lemma wrapped_quotient_less:
  fixes V r K :: nat
  assumes "K \<le> V" "0 < r" "r \<le> K"
  shows "(V - K) div r < V div r"
proof -
  define q1 where "q1 = (V - K) div r"
  define q2 where "q2 = K div r"
  have q2: "1 \<le> q2" unfolding q2_def using assms(2,3) by (simp add: div_greater_zero_iff Suc_leI)
  have "q1 * r \<le> V - K" unfolding q1_def by simp
  moreover have "q2 * r \<le> K" unfolding q2_def by simp
  ultimately have "(q1 + q2) * r \<le> V" using assms(1) by (simp add: add_mult_distrib)
  then have "q1 + q2 \<le> V div r" using assms(2) by (simp add: less_eq_div_iff_mult_less_eq)
  then show ?thesis using q2 unfolding q1_def by linarith
qed

lemma vco_product_bounds:
  assumes "35000000 \<le> unat f"
  shows "2200000000 \<le> unat f * 2 ^ unat (calculateRFDivider f)"
    and "unat f * 2 ^ unat (calculateRFDivider f) \<le> 4400000000"
proof -
  have "unat f < 2 ^ 32" using unsigned_less[of f, where 'a=nat] by simp
  then have u: "unat f \<le> 4400000000" by simp
  show "2200000000 \<le> unat f * 2 ^ unat (calculateRFDivider f)"
    using assms by (simp add: calculateRFDivider_cases)
  show "unat f * 2 ^ unat (calculateRFDivider f) \<le> 4400000000"
    using assms u by (simp add: calculateRFDivider_cases)
qed

lemma frac_word_small:
  assumes "0 \<le> k" "k < 1000"
  shows "(word_of_int k :: u32) < 4096" and "unat (word_of_int k :: u32) = nat k"
proof -
  have "uint (word_of_int k :: u32) = k"
    using assms by (simp add: uint_word_of_int take_bit_eq_mod)
  then show u: "unat (word_of_int k :: u32) = nat k" by (simp add: unat_eq_nat_uint)
  show "(word_of_int k :: u32) < 4096" using u assms by (simp add: word_less_nat_alt)
qed

lemma setFrequency_register0:
  assumes f: "35000000 \<le> unat f"
    and ref: "65536 \<le> unat (m_refFreq s)" and len: "length (m_registers s) = 6"
  shows "\<exists>t. setFrequency f s = Inr (True, t)
     \<and> unat (int_field (m_registers t ! 0)) = unat (vcoFreq_of f) div unat (m_refFreq s)
     \<and> frac_field (m_registers t ! 0)
         = word_of_int \<lfloor>fracProduct_of (vcoFreq_of f) (m_refFreq s)\<rfloor>
     \<and> unat (frac_field (m_registers t ! 0))
         = nat \<lfloor>fracProduct_of (vcoFreq_of f) (m_refFreq s)\<rfloor>
     \<and> m_registers t ! 1 = 0x08001F41
     \<and> length (m_registers t) = 6"
proof -
  have nlow: "\<not> f < 35000000" using f by (simp add: word_less_nat_alt)
  have p0: "m_refFreq s \<noteq> 0" using ref by auto
  have small: "unat (vcoFreq_of f) div unat (m_refFreq s) < 65536"
    using ref by (rule quotient_small)
  define k where "k = \<lfloor>fracProduct_of (vcoFreq_of f) (m_refFreq s)\<rfloor>"
  have k: "0 \<le> k" "k < 1000"
    using fracValue_of_Inr(2,3)[OF p0 small] by (simp_all add: k_def)
  define iv where "iv = intValue_of (vcoFreq_of f) (m_refFreq s)"
  obtain l where t: "setFrequency f s = Inr (True, s\<lparr>m_frequency := f, m_registers :=
     [push_bit 15 (ucast iv) OR push_bit 3 (word_of_int k),
      0x08001F41,
      (if m_lowNoiseMode s then 0x00204C02 else 0x00104C02),
      push_bit 3 (ucast (m_powerLevel s)) OR 0xC03,
      push_bit 20 (ucast (calculateRFDivider f))
        OR (if m_outputEnabled s then 0 else 0x20) OR 0xC8004,
      0x00400005], gpio_log := gpio_log s @ l\<rparr>)"
    using setFrequency_accepted[OF nlow ref len] unfolding k_def iv_def by blast
  have i: "int_field (push_bit 15 (ucast iv) OR push_bit 3 (word_of_int k)) = ucast iv"
    and fr: "frac_field (push_bit 15 (ucast iv) OR push_bit 3 (word_of_int k)) = word_of_int k"
    using reg0_fields[OF frac_word_small(1)[OF k], of iv] by simp_all
  have "unat (ucast iv :: u32) = unat iv"
    by (simp add: unsigned_ucast_eq take_bit_eq_mod unsigned_less[of iv, where 'a=nat, simplified]
        order.strict_trans[OF unsigned_less[of iv, where 'a=nat, simplified]])
  then have "unat (ucast iv :: u32) = unat (vcoFreq_of f) div unat (m_refFreq s)"
    using intValue_of_unat[OF small] by (simp add: iv_def)
  then show ?thesis
    using t i fr frac_word_small(2)[OF k] by (simp add: k_def)
qed

section \<open>Claims about the frequency setter\<close>

lemma updateRegisters_frame:
  assumes ref: "65536 \<le> unat (m_refFreq s)"
  shows "\<exists>regs. updateRegisters s = Inr (s\<lparr>m_registers := regs\<rparr>)"
proof -
  have p0: "m_refFreq s \<noteq> 0" using ref by auto
  have small: "unat (vcoFreq_of (m_frequency s)) div unat (m_refFreq s) < 65536"
    using ref by (rule quotient_small)
  show ?thesis
    unfolding updateRegisters_def Let_def
    by (simp add: p0 fracValue_of_Inr(1)[OF p0 small]) blast
qed

text \<open>
  Claim C1.  For every frequency \<open>f\<close> from 35,000,000 Hz to 4,400,000,000 Hz that is
  passed to \<open>setFrequency\<close>, the call returns true, the stored output frequency becomes
  \<open>f\<close>, and \<open>getFrequency\<close> then returns \<open>f\<close>.  The argument is the \<open>uint32_t\<close> parameter
  of the function.  The controller holds a reference frequency of at least 65,536 Hz, for
  which the register computation has a defined result.
\<close>

theorem setFrequency_in_range:
  assumes "35000000 \<le> unat f" and "unat f \<le> 4400000000"
    and "65536 \<le> unat (m_refFreq s)"
  shows "\<exists>t. setFrequency f s = Inr (True, t) \<and> m_frequency t = f \<and> getFrequency t = f"
proof -
  have nlow: "\<not> f < 35000000" using assms(1) by (simp add: word_less_nat_alt)
  obtain regs where u: "updateRegisters (s\<lparr>m_frequency := f\<rparr>)
      = Inr (s\<lparr>m_frequency := f, m_registers := regs\<rparr>)"
    using updateRegisters_frame[of "s\<lparr>m_frequency := f\<rparr>"] assms(3) by auto
  obtain l where l: "writeAllRegisters (s\<lparr>m_frequency := f, m_registers := regs\<rparr>)
      = s\<lparr>m_frequency := f, m_registers := regs, gpio_log := gpio_log s @ l\<rparr>"
    using writeAllRegisters_log[of "s\<lparr>m_frequency := f, m_registers := regs\<rparr>"] by auto
  have "setFrequency f s = Inr (True, s\<lparr>m_frequency := f, m_registers := regs, gpio_log := gpio_log s @ l\<rparr>)"
    using nlow upper_test_never[of f] by (simp add: setFrequency_def u l)
  then show ?thesis by (simp add: getFrequency_def)
qed

theorem setFrequency_in_range_witness:
  "35000000 \<le> unat (100000000 :: u32) \<and> unat (100000000 :: u32) \<le> 4400000000
   \<and> 65536 \<le> unat (m_refFreq (ADF4351 5 2 3 4 25000000))
   \<and> (\<exists>t. setFrequency 100000000 (ADF4351 5 2 3 4 25000000) = Inr (True, t)
          \<and> m_frequency t = 100000000 \<and> getFrequency t = 100000000)"
  using setFrequency_in_range[of 100000000 "ADF4351 5 2 3 4 25000000"]
  by (simp add: ADF4351_def)

text \<open>
  Claim C2.  For every frequency \<open>f\<close> outside 35,000,000 Hz to 4,400,000,000 Hz,
  \<open>setFrequency\<close> returns false and the state after the call is the state before it: the
  stored frequency, the six register words and the pin log (nothing is transmitted) are
  all unchanged.
\<close>

theorem setFrequency_out_of_range:
  assumes "unat f < 35000000 \<or> 4400000000 < unat f"
  shows "setFrequency f s = Inr (False, s)"
proof -
  have "unat f < 2 ^ 32" using unsigned_less[of f, where 'a=nat] by simp
  with assms have "unat f < 35000000" by auto
  then have "f < 35000000" by (simp add: word_less_nat_alt)
  then show ?thesis by (rule setFrequency_rejected)
qed

theorem setFrequency_out_of_range_witness:
  "(unat (34999999 :: u32) < 35000000 \<or> 4400000000 < unat (34999999 :: u32))
   \<and> setFrequency 34999999 (ADF4351 5 2 3 4 25000000) = Inr (False, ADF4351 5 2 3 4 25000000)"
  using setFrequency_out_of_range[of 34999999 "ADF4351 5 2 3 4 25000000"] by simp

text \<open>
  Claim C10.  The parameter of \<open>setFrequency\<close> is a 32-bit unsigned integer, so the
  upper-bound test of the range check is never true: the call returns false exactly when
  \<open>f < 35,000,000\<close>, and no argument exceeds 4,294,967,295.
\<close>

theorem upper_bound_branch_unreachable:
  fixes f :: u32
  shows "((\<exists>t. setFrequency f s = Inr (False, t)) \<longleftrightarrow> f < 35000000)
    \<and> \<not> (4400000000 :: u64) < ucast f
    \<and> unat f \<le> 4294967295"
proof -
  have "unat f < 2 ^ 32" using unsigned_less[of f, where 'a=nat] by simp
  then have "unat f \<le> 4294967295" by simp
  moreover have "(\<exists>t. setFrequency f s = Inr (False, t)) \<longleftrightarrow> f < 35000000"
    using upper_test_never[of f] by (auto simp: setFrequency_def split: sum.splits)
  ultimately show ?thesis using upper_test_never[of f] by simp
qed

theorem upper_bound_branch_unreachable_witness:
  "((\<exists>t. setFrequency 4294967295 (ADF4351 5 2 3 4 25000000) = Inr (False, t))
      \<longleftrightarrow> (4294967295 :: u32) < 35000000)
   \<and> \<not> (4400000000 :: u64) < ucast (4294967295 :: u32)
   \<and> unat (4294967295 :: u32) \<le> 4294967295"
  by (rule upper_bound_branch_unreachable[where f = 4294967295 and s = "ADF4351 5 2 3 4 25000000"])

section \<open>Claims about the divider table\<close>

text \<open>
  Claim C3.  For every frequency in range, the exponent that \<open>calculateRFDivider\<close>
  returns is the tier of the specification's breakpoint table (a frequency equal to a
  breakpoint belongs to the tier with the lower divider), and of two frequencies in range
  the lower one never gets the smaller exponent.
\<close>

theorem divider_tiers:
  assumes "35000000 \<le> unat f1" and "unat f1 \<le> 4400000000"
    and "35000000 \<le> unat f2" and "unat f2 \<le> 4400000000"
  shows "unat (calculateRFDivider f1) = spec_divider_exponent (unat f1)
    \<and> (f1 < f2 \<longrightarrow> calculateRFDivider f2 \<le> calculateRFDivider f1)"
proof -
  have a: "unat (calculateRFDivider f1) = spec_divider_exponent (unat f1)"
    by (simp add: calculateRFDivider_cases spec_divider_exponent_def spec_breakpoints_def)
  have b: "f1 < f2 \<longrightarrow> calculateRFDivider f2 \<le> calculateRFDivider f1"
    by (auto simp: word_le_nat_alt word_less_nat_alt calculateRFDivider_cases)
  from a b show ?thesis by simp
qed

theorem divider_tiers_witness:
  "35000000 \<le> unat (137499999 :: u32) \<and> unat (137499999 :: u32) \<le> 4400000000
   \<and> 35000000 \<le> unat (137500000 :: u32) \<and> unat (137500000 :: u32) \<le> 4400000000
   \<and> unat (calculateRFDivider 137499999) = spec_divider_exponent (unat (137499999 :: u32))
   \<and> (137499999 :: u32) < 137500000
   \<and> calculateRFDivider 137500000 \<le> calculateRFDivider 137499999
   \<and> calculateRFDivider 137499999 = 5 \<and> calculateRFDivider 137500000 = 4"
  using divider_tiers[of 137499999 137500000] by (simp add: calculateRFDivider_def)

text \<open>
  Claim C4.  For every frequency \<open>f\<close> in range, with \<open>d\<close> the exponent chosen for \<open>f\<close>,
  the VCO frequency \<open>f * 2 ^ d\<close> lies between 2,200,000,000 Hz and 4,400,000,000 Hz; the
  driver's \<open>rfDivider\<close> is \<open>2 ^ d\<close>.  The product is the product of the numbers, not the
  32-bit variable \<open>vcoFreq\<close>.
\<close>

theorem vco_in_band:
  assumes "35000000 \<le> unat f" and "unat f \<le> 4400000000"
  shows "unat (rfDivider_of (calculateRFDivider f)) = 2 ^ unat (calculateRFDivider f)
    \<and> 2200000000 \<le> unat f * 2 ^ unat (calculateRFDivider f)
    \<and> unat f * 2 ^ unat (calculateRFDivider f) \<le> 4400000000"
proof -
  have r: "unat (rfDivider_of (calculateRFDivider f)) = 2 ^ unat (calculateRFDivider f)"
    by (simp add: rfDivider_of_def calculateRFDivider_def)
  have "2200000000 \<le> unat f * 2 ^ unat (calculateRFDivider f)"
    using assms by (simp add: calculateRFDivider_cases)
  moreover have "unat f * 2 ^ unat (calculateRFDivider f) \<le> 4400000000"
    using assms by (simp add: calculateRFDivider_cases)
  ultimately show ?thesis using r by simp
qed

theorem vco_in_band_witness:
  "35000000 \<le> unat (67500000 :: u32) \<and> unat (67500000 :: u32) \<le> 4400000000
   \<and> unat (rfDivider_of (calculateRFDivider 67500000)) = 2 ^ unat (calculateRFDivider 67500000)
   \<and> 2200000000 \<le> unat (67500000 :: u32) * 2 ^ unat (calculateRFDivider 67500000)
   \<and> unat (67500000 :: u32) * 2 ^ unat (calculateRFDivider 67500000) \<le> 4400000000"
  using vco_in_band[of 67500000] by simp

section \<open>Claims about the other setters\<close>

text \<open>
  Claim C8.  A power level above 3 is clamped to 3 and a phase above 4095 is clamped to
  4095: the call leaves the controller in the state that the call with the clamped
  argument leaves it in.  Neither setter has a failure result.
\<close>

theorem clamping:
  "(3 < level \<longrightarrow> setPowerLevel level s = setPowerLevel 3 s)
   \<and> setPowerLevel 4 s = setPowerLevel 3 s
   \<and> (4095 < phase \<longrightarrow> setPhase phase s = setPhase 4095 s)"
  by (simp add: setPowerLevel_def setPhase_def)

theorem clamping_witness:
  "(3 :: u8) < 200
   \<and> setPowerLevel 200 (ADF4351 5 2 3 4 25000000) = setPowerLevel 3 (ADF4351 5 2 3 4 25000000)
   \<and> setPowerLevel 4 (ADF4351 5 2 3 4 25000000) = setPowerLevel 3 (ADF4351 5 2 3 4 25000000)
   \<and> (4095 :: u16) < 5000
   \<and> setPhase 5000 (ADF4351 5 2 3 4 25000000) = setPhase 4095 (ADF4351 5 2 3 4 25000000)"
  using clamping[where level = 200 and phase = 5000 and s = "ADF4351 5 2 3 4 25000000"]
  by simp

section \<open>Claims about the register array\<close>

text \<open>
  Claim C7.  After \<open>begin\<close>, and after any sequence of setter calls that follows it, the
  three low bits of register word \<open>i\<close> hold \<open>i\<close>, for each of the six registers; no
  setter changes them.  The reference frequency given to \<open>begin\<close> is at least 65,536 Hz,
  for which the register computation has a defined result; the run then ends without a
  fault.
\<close>

theorem address_bits_invariant:
  assumes "65536 \<le> unat refFreq"
  shows "\<exists>t. begin_then refFreq cs (ADF4351 le clk data ce u) = Inr t
           \<and> map address_field (m_registers t) = [0, 1, 2, 3, 4, 5]"
proof -
  have "length (m_registers (ADF4351 le clk data ce u)) = 6" by (simp add: ADF4351_def)
  then show ?thesis
    using begin_then_keeps_addresses[OF assms] by (simp add: address_bits_ok_def)
qed

theorem address_bits_invariant_witness:
  "65536 \<le> unat (25000000 :: u32)
   \<and> (\<exists>t. begin_then 25000000
             [SetFrequency 145000000, SetPowerLevel 4, EnableOutput False, SetPhase 100,
              SetLowNoiseMode False, SetFrequency 34999999]
             (ADF4351 5 2 3 4 0) = Inr t
          \<and> map address_field (m_registers t) = [0, 1, 2, 3, 4, 5])"
  using address_bits_invariant[of 25000000
      "[SetFrequency 145000000, SetPowerLevel 4, EnableOutput False, SetPhase 100,
        SetLowNoiseMode False, SetFrequency 34999999]" 5 2 3 4 0]
  by simp

text \<open>
  The settings kept in a member stay encoded in the register array: after \<open>begin\<close> and
  any sequence of setter calls, \<open>settings_encoded\<close> holds.  (The fixed register set that
  \<open>begin\<close> transmits first carries power bits 2 while the power level is 3; the
  \<open>setFrequency\<close> call that ends \<open>begin\<close> rewrites it.)
\<close>

lemma power_bits:
  fixes pl :: u8
  assumes "pl \<le> 3"
  shows "drop_bit 3 (push_bit 3 (ucast pl) OR (0xC03 :: u32)) AND 3 = ucast pl"
    and "drop_bit 3 ((r AND NOT 24) OR push_bit 3 (ucast pl :: u32)) AND 3 = ucast pl"
proof -
  have "pl < 2 ^ 2" using assms by (simp add: word_le_nat_alt word_less_nat_alt)
  then have tb: "take_bit 2 pl = pl"
    using less_mask_eq[of pl 2] by (simp add: take_bit_eq_mask)
  have m2: "(3 :: u32) = mask 2" and m24: "(24 :: u32) = push_bit 3 (mask 2)"
    and mC: "(0xC03 :: u32) = push_bit 10 (mask 2) OR mask 2"
    by (simp_all add: mask_eq_exp_minus_1)
  have "drop_bit 3 (push_bit 3 (ucast (take_bit 2 pl)) OR (0xC03 :: u32)) AND 3
          = ucast (take_bit 2 pl)"
    unfolding mC m2
    by (auto simp add: bit_eq_iff bit_simps simp flip: take_bit_eq_mask dest: bit_imp_le_length)
  then show "drop_bit 3 (push_bit 3 (ucast pl) OR (0xC03 :: u32)) AND 3 = ucast pl"
    by (simp only: tb)
  have "drop_bit 3 ((r AND NOT 24) OR push_bit 3 (ucast (take_bit 2 pl) :: u32)) AND 3
          = ucast (take_bit 2 pl)"
    unfolding m24 m2
    by (auto simp add: bit_eq_iff bit_simps simp flip: take_bit_eq_mask dest: bit_imp_le_length)
  then show "drop_bit 3 ((r AND NOT 24) OR push_bit 3 (ucast pl :: u32)) AND 3 = ucast pl"
    by (simp only: tb)
qed

lemma enable_bits:
  fixes d :: u8 and r :: u32
  shows "bit (push_bit 20 (ucast d) OR (if oe then 0 else 0x20) OR (0xC8004 :: u32)) 5 = (\<not> oe)"
    and "bit (r AND NOT 32) 5 = False"
    and "bit (r OR 32) 5 = True"
  by (simp_all add: bit_simps)

lemma noise_bits:
  fixes r :: u32
  shows "bit (if lo then 0x00204C02 else (0x00104C02 :: u32)) 21 = lo"
    and "bit (if lo then 0x00204C02 else (0x00104C02 :: u32)) 20 = (\<not> lo)"
    and "bit ((r OR 0x200000) AND NOT 0x100000) 21 = True"
    and "bit ((r OR 0x200000) AND NOT 0x100000) 20 = False"
    and "bit ((r AND NOT 0x200000) OR 0x100000) 21 = False"
    and "bit ((r AND NOT 0x200000) OR 0x100000) 20 = True"
  by (simp_all add: bit_simps)

lemma setFrequency_establishes_settings:
  assumes f: "\<not> f < 35000000" and ref: "65536 \<le> unat (m_refFreq s)"
    and len: "length (m_registers s) = 6" and pl: "m_powerLevel s \<le> 3"
  shows "\<exists>t. setFrequency f s = Inr (True, t) \<and> m_refFreq t = m_refFreq s \<and> settings_encoded t"
proof -
  obtain l where "setFrequency f s = Inr (True, s\<lparr>m_frequency := f, m_registers :=
     [push_bit 15 (ucast (intValue_of (vcoFreq_of f) (m_refFreq s)))
        OR push_bit 3 (word_of_int \<lfloor>fracProduct_of (vcoFreq_of f) (m_refFreq s)\<rfloor>),
      0x08001F41,
      (if m_lowNoiseMode s then 0x00204C02 else 0x00104C02),
      push_bit 3 (ucast (m_powerLevel s)) OR 0xC03,
      push_bit 20 (ucast (calculateRFDivider f))
        OR (if m_outputEnabled s then 0 else 0x20) OR 0xC8004,
      0x00400005], gpio_log := gpio_log s @ l\<rparr>)"
    using setFrequency_accepted[OF f ref len] by blast
  then show ?thesis
    using pl power_bits(1)[OF pl]
      enable_bits(1)[of "calculateRFDivider f" "m_outputEnabled s"]
      noise_bits(1,2)[of "m_lowNoiseMode s"]
    by (auto simp add: settings_encoded_def)
qed

lemma setFrequency_keeps_settings:
  assumes ref: "65536 \<le> unat (m_refFreq s)" and ok: "settings_encoded s"
  shows "\<exists>b t. setFrequency f s = Inr (b, t) \<and> m_refFreq t = m_refFreq s \<and> settings_encoded t"
proof (cases "f < 35000000")
  case True
  then show ?thesis using ok by (auto simp add: setFrequency_rejected)
next
  case False
  have "length (m_registers s) = 6" and "m_powerLevel s \<le> 3"
    using ok by (simp_all add: settings_encoded_def)
  then show ?thesis using setFrequency_establishes_settings[OF False ref] by blast
qed

lemma apply_call_keeps_settings:
  assumes ref: "65536 \<le> unat (m_refFreq s)" and ok: "settings_encoded s"
  shows "\<exists>t. apply_call c s = Inr t \<and> m_refFreq t = m_refFreq s \<and> settings_encoded t"
proof (cases c)
  case (SetFrequency f)
  then show ?thesis using setFrequency_keeps_settings[OF ref ok, of f] by auto
next
  case (SetPowerLevel l)
  have "(if 3 < l then 3 else l) \<le> 3" by (simp add: not_less)
  then show ?thesis using ok SetPowerLevel power_bits(2)[of "if 3 < l then 3 else l"]
    by (simp add: settings_encoded_def setPowerLevel_fields setPowerLevel_registers)
next
  case (EnableOutput e)
  then show ?thesis using ok enable_bits(2,3)[of "m_registers s ! 4"]
    by (simp add: settings_encoded_def enableOutput_fields enableOutput_registers)
next
  case (SetPhase p)
  then show ?thesis using ok
    by (simp add: settings_encoded_def setPhase_fields setPhase_registers)
next
  case (SetLowNoiseMode n)
  then show ?thesis using ok noise_bits(3,4,5,6)[of "m_registers s ! 2"]
    by (simp add: settings_encoded_def setLowNoiseMode_fields setLowNoiseMode_registers)
qed

lemma run_calls_keeps_settings:
  assumes "65536 \<le> unat (m_refFreq s)" and "settings_encoded s"
  shows "\<exists>t. run_calls cs s = Inr t \<and> m_refFreq t = m_refFreq s \<and> settings_encoded t"
  using assms
proof (induction cs arbitrary: s)
  case Nil
  then show ?case by simp
next
  case (Cons c cs)
  obtain t where t: "apply_call c s = Inr t" "m_refFreq t = m_refFreq s" "settings_encoded t"
    using apply_call_keeps_settings[OF Cons.prems] by blast
  then show ?case using Cons.IH[of t] Cons.prems(1) by auto
qed

lemma begin_adf_settings:
  assumes ref: "65536 \<le> unat r" and len: "length (m_registers s) = 6"
    and pl: "m_powerLevel s \<le> 3"
  shows "\<exists>t. begin_adf r s = Inr t \<and> m_refFreq t = r \<and> settings_encoded t"
proof -
  define s2 where "s2 = writeAllRegisters ((begin_pins (s\<lparr>m_refFreq := r\<rparr>))\<lparr>m_registers :=
      (m_registers (begin_pins (s\<lparr>m_refFreq := r\<rparr>)))
                 [0 := 0x00580000, 1 := 0x08008011, 2 := 0x00004E42,
                  3 := 0x000004B3, 4 := 0x00800024, 5 := 0x00580005]\<rparr>)"
  have r2: "m_refFreq s2 = r" and l2: "length (m_registers s2) = 6"
    and p2: "m_powerLevel s2 \<le> 3"
    using len pl by (simp_all add: s2_def writeAllRegisters_fields begin_pins_fields)
  have nlow: "\<not> (100000000 :: u32) < 35000000" by simp
  obtain t where t: "setFrequency 100000000 s2 = Inr (True, t)" "m_refFreq t = m_refFreq s2"
      "settings_encoded t"
    using setFrequency_establishes_settings[OF nlow _ l2 p2] ref r2 by auto
  have "begin_adf r s = Inr t"
    using t(1) by (simp add: begin_adf_def Let_def s2_def)
  then show ?thesis using t r2 by simp
qed

lemma settings_encoded_invariant:
  assumes "65536 \<le> unat r"
  shows "\<exists>t. begin_then r cs (ADF4351 le clk data ce u) = Inr t \<and> settings_encoded t"
proof -
  have "length (m_registers (ADF4351 le clk data ce u)) = 6"
    and "m_powerLevel (ADF4351 le clk data ce u) \<le> 3"
    by (simp_all add: ADF4351_def)
  then obtain t0 where t0: "begin_adf r (ADF4351 le clk data ce u) = Inr t0"
      "m_refFreq t0 = r" "settings_encoded t0"
    using begin_adf_settings[OF assms] by blast
  obtain t where "run_calls cs t0 = Inr t" "settings_encoded t"
    using run_calls_keeps_settings[of t0 cs] t0 assms by auto
  then show ?thesis using t0(1) by (simp add: begin_then_def)
qed

lemma phase_field_setPhase:
  fixes ph :: u16
  assumes "ph \<le> 4095"
  shows "phase_field ((r AND NOT 0x7FF8000) OR push_bit 15 (ucast ph)) = ucast ph"
proof -
  have "ph < 2 ^ 12" using assms by (simp add: word_le_nat_alt word_less_nat_alt)
  then have tb: "take_bit 12 ph = ph"
    using less_mask_eq[of ph 12] by (simp add: take_bit_eq_mask)
  have m12: "(0xFFF :: u32) = mask 12" and m: "(0x7FF8000 :: u32) = push_bit 15 (mask 12)"
    by (simp_all add: mask_eq_exp_minus_1)
  have "phase_field ((r AND NOT 0x7FF8000) OR push_bit 15 (ucast (take_bit 12 ph))) = ucast (take_bit 12 ph)"
    unfolding phase_field_def m12 m
    by (auto simp add: bit_eq_iff bit_simps simp flip: take_bit_eq_mask dest: bit_imp_le_length)
  then show ?thesis by (simp only: tb)
qed

text \<open>
  Claim C6.  After every setter the register array agrees with the settings last made:
  the power field of register 3, bit 5 of register 4, the noise-mode bits of register 2,
  and the phase field (bits 15 to 26) of register 1, which is to hold the phase most
  recently set, also after a later \<open>setFrequency\<close>.  The driver does not do the last:
  the class has no member for the phase, and \<open>updateRegisters\<close> writes phase 0.  After
  \<open>begin(25000000)\<close> and \<open>setPhase(100)\<close> the phase field is 100; after a following
  \<open>setFrequency(145000000)\<close> it is 0.
\<close>

theorem phase_reset_by_setFrequency:
  "\<exists>s t. begin_then 25000000 [SetPhase 100] (ADF4351 5 2 3 4 0) = Inr s
      \<and> phase_field (m_registers s ! 1) = 100
      \<and> begin_then 25000000 [SetPhase 100, SetFrequency 145000000] (ADF4351 5 2 3 4 0) = Inr t
      \<and> phase_field (m_registers t ! 1) = 0"
proof -
  have len0: "length (m_registers (ADF4351 5 2 3 4 0)) = 6" by (simp add: ADF4351_def)
  obtain t0 where t0: "begin_adf 25000000 (ADF4351 5 2 3 4 0) = Inr t0"
      "m_refFreq t0 = 25000000" "address_bits_ok t0"
    using begin_adf_ok[of 25000000 "ADF4351 5 2 3 4 0"] len0 by auto
  have len: "length (m_registers t0) = 6" using t0(3) by (rule address_bits_ok_length)
  define s where "s = setPhase 100 t0"
  have run1: "begin_then 25000000 [SetPhase 100] (ADF4351 5 2 3 4 0) = Inr s"
    by (simp add: begin_then_def t0(1) s_def)
  have regs: "m_registers s ! 1 = (m_registers t0 ! 1 AND NOT 0x7FF8000) OR push_bit 15 (ucast (100 :: u16))"
    using len by (simp add: s_def setPhase_registers)
  have ph: "phase_field (m_registers s ! 1) = 100"
    unfolding regs using phase_field_setPhase[of 100 "m_registers t0 ! 1"] by simp
  have lens: "length (m_registers s) = 6" using len by (simp add: s_def setPhase_registers)
  have refs: "65536 \<le> unat (m_refFreq s)" by (simp add: s_def setPhase_fields t0(2))
  obtain t where t: "setFrequency 145000000 s = Inr (True, t)" "m_registers t ! 1 = 0x08001F41"
    using setFrequency_register0[of 145000000 s] refs lens by auto
  have run2: "begin_then 25000000 [SetPhase 100, SetFrequency 145000000] (ADF4351 5 2 3 4 0) = Inr t"
    by (simp add: begin_then_def t0(1) s_def[symmetric] t(1))
  have "phase_field (m_registers t ! 1) = 0" unfolding t(2) by (simp add: phase_field_def)
  then show ?thesis using run1 ph run2 by blast
qed

section \<open>Claims about the VCO product\<close>

lemma wrap_example_product:
  "\<lfloor>fracProduct_of 25032704 25000000\<rfloor> = 1"
proof -
  have "fracProduct_of 25032704 25000000
     = round_double (round_double (round_double (25032704 / 25000000) - 1) * 1000)"
    by (simp add: fracProduct_of_def double_mul_def double_sub_def double_div_def
        double_of_u32_def double_of_u16_def intValue_of_def)
  moreover have "\<lfloor>round_double (round_double (round_double (25032704 / 25000000) - 1) * 1000)\<rfloor> = 1"
    by code_simp
  ultimately show ?thesis by simp
qed

text \<open>
  Claim C9.  \<open>vcoFreq\<close> is the 32-bit product \<open>_frequency * rfDivider\<close>, the product of
  the numbers modulo \<open>2 ^ 32\<close>.  The INT and FRAC fields that \<open>setFrequency\<close> writes to
  register 0 are computed from this 32-bit value.  Where the product of the numbers exceeds
  4,294,967,295, the 32-bit value is that product less \<open>2 ^ 32\<close>, and the INT written is
  smaller than the quotient of the true VCO frequency by the PFD frequency.
\<close>

theorem vco_product_wraps:
  assumes f: "35000000 \<le> unat f" "unat f \<le> 4400000000"
    and ref: "65536 \<le> unat (m_refFreq s)" and len: "length (m_registers s) = 6"
  shows "unat (vcoFreq_of f) = (unat f * 2 ^ unat (calculateRFDivider f)) mod 2 ^ 32
    \<and> (\<exists>t. setFrequency f s = Inr (True, t)
          \<and> unat (int_field (m_registers t ! 0)) = unat (vcoFreq_of f) div unat (m_refFreq s)
          \<and> unat (frac_field (m_registers t ! 0))
              = nat \<lfloor>fracProduct_of (vcoFreq_of f) (m_refFreq s)\<rfloor>
          \<and> (4294967295 < unat f * 2 ^ unat (calculateRFDivider f) \<longrightarrow>
                unat (vcoFreq_of f) = unat f * 2 ^ unat (calculateRFDivider f) - 4294967296
              \<and> unat (int_field (m_registers t ! 0))
                  < (unat f * 2 ^ unat (calculateRFDivider f)) div unat (m_refFreq s)))"
proof -
  define V where "V = unat f * 2 ^ unat (calculateRFDivider f)"
  define r where "r = unat (m_refFreq s)"
  have w: "unat (vcoFreq_of f) = V mod 2 ^ 32" by (simp add: V_def vcoFreq_of_unat)
  have Vhi: "V \<le> 4400000000" using vco_product_bounds(2)[OF f(1)] by (simp add: V_def)
  have r: "0 < r" "r \<le> 4294967296"
    using ref unsigned_less[of "m_refFreq s", where 'a=nat] by (simp_all add: r_def)
  obtain t where t: "setFrequency f s = Inr (True, t)"
      "unat (int_field (m_registers t ! 0)) = unat (vcoFreq_of f) div r"
      "unat (frac_field (m_registers t ! 0))
         = nat \<lfloor>fracProduct_of (vcoFreq_of f) (m_refFreq s)\<rfloor>"
    using setFrequency_register0[OF f(1) ref len] unfolding r_def by blast
  have over: "unat (vcoFreq_of f) = V - 4294967296 \<and> unat (int_field (m_registers t ! 0)) < V div r"
    if "4294967295 < V"
  proof -
    have ge: "4294967296 \<le> V" using that by simp
    have "V mod 4294967296 = (V - 4294967296) mod 4294967296" using ge by (rule le_mod_geq)
    moreover have "V - 4294967296 < 4294967296" using Vhi by simp
    ultimately have m: "V mod 4294967296 = V - 4294967296" by simp
    then have "unat (vcoFreq_of f) = V - 4294967296" using w by simp
    then show ?thesis using wrapped_quotient_less[OF ge r] t(2) by simp
  qed
  show ?thesis
    using w t over unfolding V_def r_def by blast
qed

theorem vco_product_wraps_witness:
  "35000000 \<le> unat (67500000 :: u32) \<and> unat (67500000 :: u32) \<le> 4400000000
   \<and> 65536 \<le> unat (m_refFreq (ADF4351 5 2 3 4 25000000))
   \<and> length (m_registers (ADF4351 5 2 3 4 25000000)) = 6
   \<and> calculateRFDivider 67500000 = 6
   \<and> (4294967295 :: nat) < 67500000 * 2 ^ 6
   \<and> unat (vcoFreq_of 67500000) = 25032704
   \<and> (\<exists>t. setFrequency 67500000 (ADF4351 5 2 3 4 25000000) = Inr (True, t)
          \<and> unat (int_field (m_registers t ! 0)) = 1
          \<and> unat (frac_field (m_registers t ! 0)) = 1)
   \<and> (67500000 * 2 ^ 6) div 25000000 = (172 :: nat)"
proof -
  have d: "calculateRFDivider 67500000 = 6" by (simp add: calculateRFDivider_def)
  have v: "vcoFreq_of 67500000 = 25032704"
    by (simp add: vcoFreq_of_def rfDivider_of_def d)
  have h: "35000000 \<le> unat (67500000 :: u32)" "unat (67500000 :: u32) \<le> 4400000000"
    "65536 \<le> unat (m_refFreq (ADF4351 5 2 3 4 25000000))"
    "length (m_registers (ADF4351 5 2 3 4 25000000)) = 6"
    by (simp_all add: ADF4351_def)
  have ref: "m_refFreq (ADF4351 5 2 3 4 25000000) = 25000000" by (simp add: ADF4351_def)
  show ?thesis
    using vco_product_wraps[OF h] h
    by (simp add: d v ref wrap_example_product) blast
qed

section \<open>Claims about INT and FRAC\<close>

lemma truncate_rat_nonneg: "0 \<le> d \<Longrightarrow> truncate_rat d = \<lfloor>d\<rfloor>"
  by (simp add: truncate_rat_def)

lemma golden_example_product:
  "\<lfloor>fracProduct_of 2320000000 25000000\<rfloor> = 799"
proof -
  have "fracProduct_of 2320000000 25000000
     = round_double (round_double (round_double (2320000000 / 25000000) - 92) * 1000)"
    by (simp add: fracProduct_of_def double_mul_def double_sub_def double_div_def
        double_of_u32_def double_of_u16_def intValue_of_def)
  moreover have "\<lfloor>round_double (round_double (round_double (2320000000 / 25000000) - 92) * 1000)\<rfloor> = 799"
    by code_simp
  ultimately show ?thesis by simp
qed

lemma truncation_example_product:
  "\<lfloor>fracProduct_of 2200017500 25000000\<rfloor> = 0"
proof -
  have "fracProduct_of 2200017500 25000000
     = round_double (round_double (round_double (2200017500 / 25000000) - 88) * 1000)"
    by (simp add: fracProduct_of_def double_mul_def double_sub_def double_div_def
        double_of_u32_def double_of_u16_def intValue_of_def)
  moreover have "\<lfloor>round_double (round_double (round_double (2200017500 / 25000000) - 88) * 1000)\<rfloor> = 0"
    by code_simp
  ultimately show ?thesis by simp
qed

text \<open>
  Claim C5.  On a successful \<open>setFrequency\<close>, with the PFD frequency the reference
  frequency (divided by 1): provided the VCO product \<open>f * 2 ^ d\<close> fits 32 bits and the
  reference frequency is at least 65,536 Hz, the INT field written to register 0 is the
  floor of VCO frequency over PFD frequency, and the FRAC field is the double-precision
  value of \<open>(vcoFreq / pfdFreq - intValue) * 1000\<close> truncated towards zero by the cast to
  \<open>uint32_t\<close>.  It is not rounded to nearest.  FRAC is at most 999; the double value is
  within \<open>1 / 2 ^ 27\<close> of the exact product, so FRAC exceeds the exact product by at most
  that and is less than 1 below it, up to that.
\<close>

theorem int_frac_programmed:
  assumes f: "35000000 \<le> unat f" "unat f \<le> 4400000000"
    and ref: "65536 \<le> unat (m_refFreq s)" and len: "length (m_registers s) = 6"
    and nowrap: "unat f * 2 ^ unat (calculateRFDivider f) \<le> 4294967295"
  shows "\<exists>t. setFrequency f s = Inr (True, t)
     \<and> unat (int_field (m_registers t ! 0))
         = (unat f * 2 ^ unat (calculateRFDivider f)) div unat (m_refFreq s)
     \<and> int (unat (frac_field (m_registers t ! 0)))
         = truncate_rat (fracProduct_of (vcoFreq_of f) (m_refFreq s))
     \<and> unat (frac_field (m_registers t ! 0)) \<le> 999
     \<and> \<bar>fracProduct_of (vcoFreq_of f) (m_refFreq s)
          - (of_nat (unat f * 2 ^ unat (calculateRFDivider f)) / of_nat (unat (m_refFreq s))
             - of_nat ((unat f * 2 ^ unat (calculateRFDivider f)) div unat (m_refFreq s))) * 1000\<bar>
         \<le> 1 / 2 ^ 27
     \<and> of_nat (unat (frac_field (m_registers t ! 0)))
         \<le> (of_nat (unat f * 2 ^ unat (calculateRFDivider f)) / of_nat (unat (m_refFreq s))
             - of_nat ((unat f * 2 ^ unat (calculateRFDivider f)) div unat (m_refFreq s))) * 1000
           + (1 / 2 ^ 27 :: rat)
     \<and> (of_nat (unat f * 2 ^ unat (calculateRFDivider f)) / of_nat (unat (m_refFreq s))
             - of_nat ((unat f * 2 ^ unat (calculateRFDivider f)) div unat (m_refFreq s))) * 1000
           - 1 - 1 / 2 ^ 27
         < (of_nat (unat (frac_field (m_registers t ! 0))) :: rat)"
proof -
  define V where "V = unat f * 2 ^ unat (calculateRFDivider f)"
  define P where "P = unat (m_refFreq s)"
  define X :: rat where "X = (of_nat V / of_nat P - of_nat (V div P)) * 1000"
  define pr where "pr = fracProduct_of (vcoFreq_of f) (m_refFreq s)"
  have v: "unat (vcoFreq_of f) = V"
    using nowrap by (simp add: vcoFreq_of_unat V_def)
  have p0: "m_refFreq s \<noteq> 0" using ref by auto
  have small: "unat (vcoFreq_of f) div unat (m_refFreq s) < 65536"
    using ref by (rule quotient_small)
  have pr0: "0 \<le> pr" and prhi: "\<lfloor>pr\<rfloor> < 1000" and fl0: "0 \<le> \<lfloor>pr\<rfloor>"
    using fracProduct_bounds[OF p0 small] fracValue_of_Inr(2,3)[OF p0 small]
    by (simp_all add: pr_def)
  have err: "\<bar>pr - X\<bar> \<le> 1 / 2 ^ 27"
    using fracProduct_error[OF p0 small] by (simp add: pr_def X_def v P_def)
  obtain t where t: "setFrequency f s = Inr (True, t)"
      "unat (int_field (m_registers t ! 0)) = V div P"
      "unat (frac_field (m_registers t ! 0)) = nat \<lfloor>pr\<rfloor>"
    using setFrequency_register0[OF f(1) ref len] unfolding pr_def v P_def by blast
  define k where "k = unat (frac_field (m_registers t ! 0))"
  have kint: "int k = \<lfloor>pr\<rfloor>" using t(3) fl0 by (simp add: k_def)
  have ktr: "int k = truncate_rat pr" using kint pr0 by (simp add: truncate_rat_nonneg)
  have k999: "k \<le> 999" using kint prhi by linarith
  have krat: "(of_nat k :: rat) = of_int \<lfloor>pr\<rfloor>" using kint by (metis of_int_of_nat_eq)
  have "of_int \<lfloor>pr\<rfloor> \<le> pr" "pr < of_int \<lfloor>pr\<rfloor> + 1" by linarith+
  then have up: "(of_nat k :: rat) \<le> X + 1 / 2 ^ 27" and lo: "X - 1 - 1 / 2 ^ 27 < (of_nat k :: rat)"
    using err unfolding krat by linarith+
  show ?thesis
    using t(1,2) ktr k999 err up lo unfolding k_def X_def pr_def V_def P_def by blast
qed

theorem int_frac_programmed_witness:
  "35000000 \<le> unat (145000000 :: u32) \<and> unat (145000000 :: u32) \<le> 4400000000
   \<and> 65536 \<le> unat (m_refFreq (ADF4351 5 2 3 4 25000000))
   \<and> length (m_registers (ADF4351 5 2 3 4 25000000)) = 6
   \<and> unat (145000000 :: u32) * 2 ^ unat (calculateRFDivider 145000000) \<le> 4294967295
   \<and> (\<exists>t. setFrequency 145000000 (ADF4351 5 2 3 4 25000000) = Inr (True, t)
          \<and> unat (int_field (m_registers t ! 0)) = 92
          \<and> unat (frac_field (m_registers t ! 0)) = 799)"
proof -
  have d: "calculateRFDivider 145000000 = 4" by (simp add: calculateRFDivider_def)
  have v: "vcoFreq_of 145000000 = 2320000000"
    by (simp add: vcoFreq_of_def rfDivider_of_def d)
  have ref: "m_refFreq (ADF4351 5 2 3 4 25000000) = 25000000" by (simp add: ADF4351_def)
  have h: "35000000 \<le> unat (145000000 :: u32)" "unat (145000000 :: u32) \<le> 4400000000"
    "65536 \<le> unat (m_refFreq (ADF4351 5 2 3 4 25000000))"
    "length (m_registers (ADF4351 5 2 3 4 25000000)) = 6"
    "unat (145000000 :: u32) * 2 ^ unat (calculateRFDivider 145000000) \<le> 4294967295"
    by (simp_all add: ADF4351_def d)
  have "(799 :: rat) \<le> fracProduct_of 2320000000 25000000"
    using golden_example_product by linarith
  then have tr: "truncate_rat (fracProduct_of 2320000000 25000000) = 799"
    using golden_example_product by (simp add: truncate_rat_def)
  obtain t where t: "setFrequency 145000000 (ADF4351 5 2 3 4 25000000) = Inr (True, t)"
      "unat (int_field (m_registers t ! 0))
         = (unat (145000000 :: u32) * 2 ^ unat (calculateRFDivider 145000000))
             div unat (m_refFreq (ADF4351 5 2 3 4 25000000))"
      "int (unat (frac_field (m_registers t ! 0)))
         = truncate_rat (fracProduct_of (vcoFreq_of 145000000) (m_refFreq (ADF4351 5 2 3 4 25000000)))"
    using int_frac_programmed[OF h] by blast
  have "unat (int_field (m_registers t ! 0)) = 92" using t(2) by (simp add: d ref)
  moreover have "unat (frac_field (m_registers t ! 0)) = 799"
  proof -
    have "int (unat (frac_field (m_registers t ! 0))) = 799" using t(3) unfolding v ref tr .
    then show ?thesis by linarith
  qed
  ultimately show ?thesis using t(1) h by blast
qed

text \<open>
  The claim as the specification words it, with FRAC rounded to nearest, fails: after
  \<open>begin(25000000)\<close>, \<open>setFrequency(2200017500)\<close> writes INT 88 and FRAC 0, and the exact
  product is 0.7, which rounds to 1.
\<close>

theorem frac_truncated_not_rounded:
  "map_sum id (unat \<circ> int_field \<circ> hd \<circ> m_registers)
      (begin_then 25000000 [SetFrequency 2200017500] (ADF4351 5 2 3 4 0)) = Inr 88
   \<and> map_sum id (unat \<circ> frac_field \<circ> hd \<circ> m_registers)
      (begin_then 25000000 [SetFrequency 2200017500] (ADF4351 5 2 3 4 0)) = Inr 0
   \<and> round ((2200017500 / 25000000 - of_int \<lfloor>2200017500 / 25000000 :: rat\<rfloor>) * 1000 :: rat) = 1"
proof -
  have len0: "length (m_registers (ADF4351 5 2 3 4 0)) = 6" by (simp add: ADF4351_def)
  obtain t0 where t0: "begin_adf 25000000 (ADF4351 5 2 3 4 0) = Inr t0"
      "m_refFreq t0 = 25000000" "address_bits_ok t0"
    using begin_adf_ok[of 25000000 "ADF4351 5 2 3 4 0"] len0 by auto
  have len: "length (m_registers t0) = 6" using t0(3) by (rule address_bits_ok_length)
  have d: "calculateRFDivider 2200017500 = 0" by (simp add: calculateRFDivider_def)
  have v: "vcoFreq_of 2200017500 = 2200017500"
    by (simp add: vcoFreq_of_def rfDivider_of_def d)
  obtain t where t: "setFrequency 2200017500 t0 = Inr (True, t)"
      "unat (int_field (m_registers t ! 0)) = unat (vcoFreq_of 2200017500) div unat (m_refFreq t0)"
      "unat (frac_field (m_registers t ! 0))
         = nat \<lfloor>fracProduct_of (vcoFreq_of 2200017500) (m_refFreq t0)\<rfloor>"
      "length (m_registers t) = 6"
    using setFrequency_register0[of 2200017500 t0] t0(2) len by auto
  have run: "begin_then 25000000 [SetFrequency 2200017500] (ADF4351 5 2 3 4 0) = Inr t"
    by (simp add: begin_then_def t0(1) t(1))
  have h: "hd (m_registers t) = m_registers t ! 0"
    using t(4) by (cases "m_registers t") simp_all
  have i: "unat (int_field (m_registers t ! 0)) = 88" using t(2) by (simp add: v t0(2))
  have fr: "unat (frac_field (m_registers t ! 0)) = 0"
    using t(3) by (simp add: v t0(2) truncation_example_product)
  have r: "round ((2200017500 / 25000000 - of_int \<lfloor>2200017500 / 25000000 :: rat\<rfloor>) * 1000 :: rat) = 1"
    by code_simp
  show ?thesis using r by (simp add: run h i fr)
qed

end
